theory Spec2Isabelle
  imports Complex_Main "HOL-Library.Word"
begin

unbundle bit_operations_syntax

section \<open>Data model of Dodecahedron.c\<close>

text \<open>
  The C type \<^verbatim>\<open>double\<close> is read as the real numbers: every arithmetic operation of the
  source is the exact operation on \<^typ>\<open>real\<close>, \<^verbatim>\<open>sqrt\<close>, \<^verbatim>\<open>cos\<close> and \<^verbatim>\<open>sin\<close> are the
  mathematical functions. Rounding, infinities and NaN are outside this development.

  The struct fields \<^verbatim>\<open>x\<close>, \<^verbatim>\<open>y\<close>, \<^verbatim>\<open>z\<close> of \<^verbatim>\<open>Vec3\<close> and \<^verbatim>\<open>n\<close>, \<^verbatim>\<open>d\<close> of \<^verbatim>\<open>Plane\<close> carry a
  prefix here, since a record field is a constant and one-letter constants would capture
  the variables of every later statement.
\<close>

record Vec3 =
  vx :: real
  vy :: real
  vz :: real

record Plane =
  pn :: Vec3
  pd :: real

definition WINDOW_WIDTH :: int where "WINDOW_WIDTH = 800"
definition WINDOW_HEIGHT :: int where "WINDOW_HEIGHT = 600"
definition NUM_VERTICES :: nat where "NUM_VERTICES = 20"
definition TOL :: real where "TOL = 1 / 10 ^ 6"
definition MAX_PLANES :: int where "MAX_PLANES = 30"

definition phi :: real where "phi = (1 + sqrt 5) / 2"
definition invphi :: real where "invphi = 1 / phi"

definition vec :: "real \<Rightarrow> real \<Rightarrow> real \<Rightarrow> Vec3" where
  "vec a b c = \<lparr>vx = a, vy = b, vz = c\<rparr>"

definition baseVertices :: "Vec3 list" where
  "baseVertices =
    [vec (-1) (-1) (-1), vec (-1) (-1) 1, vec (-1) 1 (-1), vec (-1) 1 1,
     vec 1 (-1) (-1), vec 1 (-1) 1, vec 1 1 (-1), vec 1 1 1,
     vec 0 (- invphi) (- phi), vec 0 (- invphi) phi,
     vec 0 invphi (- phi), vec 0 invphi phi,
     vec (- phi) 0 (- invphi), vec (- phi) 0 invphi,
     vec phi 0 (- invphi), vec phi 0 invphi,
     vec (- invphi) (- phi) 0, vec (- invphi) phi 0,
     vec invphi (- phi) 0, vec invphi phi 0]"

section \<open>Vector math\<close>

definition dot :: "Vec3 \<Rightarrow> Vec3 \<Rightarrow> real" where
  "dot a b = vx a * vx b + vy a * vy b + vz a * vz b"

definition cross :: "Vec3 \<Rightarrow> Vec3 \<Rightarrow> Vec3" where
  "cross a b =
    \<lparr>vx = vy a * vz b - vz a * vy b,
     vy = vz a * vx b - vx a * vz b,
     vz = vx a * vy b - vy a * vx b\<rparr>"

definition length_v :: "Vec3 \<Rightarrow> real" where
  "length_v v = sqrt (dot v v)"

definition normalize_v :: "Vec3 \<Rightarrow> Vec3" where
  "normalize_v v =
    (let len = length_v v
     in if len < TOL then v
        else \<lparr>vx = vx v / len, vy = vy v / len, vz = vz v / len\<rparr>)"

definition add :: "Vec3 \<Rightarrow> Vec3 \<Rightarrow> Vec3" where
  "add a b = \<lparr>vx = vx a + vx b, vy = vy a + vy b, vz = vz a + vz b\<rparr>"

definition subtract :: "Vec3 \<Rightarrow> Vec3 \<Rightarrow> Vec3" where
  "subtract a b = \<lparr>vx = vx a - vx b, vy = vy a - vy b, vz = vz a - vz b\<rparr>"

definition scale :: "Vec3 \<Rightarrow> real \<Rightarrow> Vec3" where
  "scale v s = \<lparr>vx = vx v * s, vy = vy v * s, vz = vz v * s\<rparr>"

definition rotate_v :: "Vec3 \<Rightarrow> real \<Rightarrow> Vec3" where
  "rotate_v v angle =
    (let cosA = cos angle; sinA = sin angle;
         x = cosA * vx v + sinA * vz v;
         z = - sinA * vx v + cosA * vz v;
         y = vy v;
         cosB = cos (angle * 0.5); sinB = sin (angle * 0.5);
         y2 = cosB * y - sinB * z;
         z2 = sinB * y + cosB * z
     in \<lparr>vx = x, vy = y2, vz = z2\<rparr>)"

section \<open>Half-space extraction: \<^verbatim>\<open>computeBasePlanes\<close>\<close>

text \<open>
  The pointer \<^verbatim>\<open>vertices\<close> with its count \<^verbatim>\<open>numVertices\<close> is a list, \<^verbatim>\<open>numVertices\<close> being
  its length. The output array \<^verbatim>\<open>planes\<close> is a list holding the caller's buffer; a store
  outside the buffer is the error \<open>OutOfBounds\<close>. \<open>UndefinedCast\<close> is a conversion from
  \<^verbatim>\<open>double\<close> to \<^verbatim>\<open>int\<close> whose value does not fit.
\<close>

datatype error = OutOfBounds | UndefinedCast

fun for_each :: "nat list \<Rightarrow> (nat \<Rightarrow> 's \<Rightarrow> error + 's) \<Rightarrow> 's \<Rightarrow> error + 's" where
  "for_each [] body s = Inr s"
| "for_each (i # is) body s =
     (case body i s of Inl e \<Rightarrow> Inl e | Inr s' \<Rightarrow> for_each is body s')"

text \<open>The loop over \<^verbatim>\<open>m\<close> (lines 93 to 98): the flags \<^verbatim>\<open>allBelow\<close> and \<^verbatim>\<open>allAbove\<close>.\<close>

definition side_step :: "Vec3 \<Rightarrow> real \<Rightarrow> Vec3 \<Rightarrow> bool \<times> bool \<Rightarrow> bool \<times> bool" where
  "side_step n d vm flags =
    (case flags of (allBelow, allAbove) \<Rightarrow>
      (let side = dot n vm - d
       in (if side > TOL then False else allBelow,
           if side < - TOL then False else allAbove)))"

definition side_loop :: "Vec3 list \<Rightarrow> Vec3 \<Rightarrow> real \<Rightarrow> bool \<times> bool" where
  "side_loop vertices n d = fold (side_step n d) vertices (True, True)"

text \<open>Lines 86 to 104: the oriented plane of the triple \<open>(i, j, k)\<close>, or none (\<^verbatim>\<open>continue\<close>).\<close>

definition candidate :: "Vec3 list \<Rightarrow> nat \<Rightarrow> nat \<Rightarrow> nat \<Rightarrow> Plane option" where
  "candidate vertices i j k =
    (let v1 = subtract (vertices ! j) (vertices ! i);
         v2 = subtract (vertices ! k) (vertices ! i);
         n = cross v1 v2
     in if length_v n < TOL then None
        else
          (let n = normalize_v n;
               d = dot n (vertices ! i)
           in case side_loop vertices n d of (allBelow, allAbove) \<Rightarrow>
                if \<not> (allBelow \<or> allAbove) then None
                else if allAbove then Some \<lparr>pn = scale n (- 1), pd = - d\<rparr>
                else Some \<lparr>pn = n, pd = d\<rparr>))"

text \<open>The test of line 108.\<close>

definition is_dup :: "Plane \<Rightarrow> Vec3 \<Rightarrow> real \<Rightarrow> bool" where
  "is_dup q n d \<longleftrightarrow> \<bar>dot (pn q) n - 1\<bar> < 1 / 10 ^ 3 \<and> \<bar>pd q - d\<bar> < 1 / 10 ^ 3"

text \<open>The loop over \<^verbatim>\<open>p\<close> (lines 107 to 112), with its \<^verbatim>\<open>break\<close>.\<close>

function dup_loop :: "Plane list \<Rightarrow> int \<Rightarrow> int \<Rightarrow> Vec3 \<Rightarrow> real \<Rightarrow> bool" where
  "dup_loop planes count p n d =
    (if p < count
     then (if is_dup (planes ! nat p) n d then True else dup_loop planes count (p + 1) n d)
     else False)"
  by pat_completeness auto
termination
  by (relation "measure (\<lambda>(planes, count, p, n, d). nat (count - p))") auto

declare dup_loop.simps [simp del]

text \<open>Lines 106 to 117 on the state \<open>(count, planes)\<close>.\<close>

definition accept :: "int \<Rightarrow> Plane \<Rightarrow> int \<times> Plane list \<Rightarrow> error + (int \<times> Plane list)" where
  "accept maxPlanes c st =
    (case st of (count, planes) \<Rightarrow>
      (let duplicate = dup_loop planes count 0 (pn c) (pd c)
       in if \<not> duplicate \<and> count < maxPlanes
          then (if 0 \<le> count \<and> nat count < length planes
                then Inr (count + 1, planes[nat count := \<lparr>pn = pn c, pd = pd c\<rparr>])
                else Inl OutOfBounds)
          else Inr (count, planes)))"

definition triple_body ::
  "Vec3 list \<Rightarrow> int \<Rightarrow> nat \<Rightarrow> nat \<Rightarrow> nat \<Rightarrow> int \<times> Plane list \<Rightarrow> error + (int \<times> Plane list)" where
  "triple_body vertices maxPlanes i j k st =
    (case candidate vertices i j k of
       None \<Rightarrow> Inr st
     | Some c \<Rightarrow> accept maxPlanes c st)"

definition computeBasePlanes ::
  "Vec3 list \<Rightarrow> Plane list \<Rightarrow> int \<Rightarrow> error + (int \<times> Plane list)" where
  "computeBasePlanes vertices planes maxPlanes =
    (let numVertices = length vertices
     in for_each [0..<numVertices] (\<lambda>i.
          for_each [i + 1..<numVertices] (\<lambda>j.
            for_each [j + 1..<numVertices] (\<lambda>k.
              triple_body vertices maxPlanes i j k)))
        (0, planes))"

section \<open>The frame loop of \<^verbatim>\<open>main\<close>\<close>

definition modelScale :: real where "modelScale = 0.5"

definition scaledVertices :: "Vec3 list" where
  "scaledVertices = map (\<lambda>v. scale v modelScale) baseVertices"

definition camPos :: Vec3 where "camPos = vec 0 0 (- 5)"
definition scaleFactor :: real where "scaleFactor = 300"
definition halfWidth :: real where "halfWidth = of_int WINDOW_WIDTH / 2"
definition halfHeight :: real where "halfHeight = of_int WINDOW_HEIGHT / 2"
definition lightDir :: Vec3 where "lightDir = normalize_v (vec 1 1 (- 1))"
definition background :: "32 word" where "background = 0x00FF00"

text \<open>Line 201: the angle of a frame, from the tick count in milliseconds.\<close>

definition frame_angle :: "32 word \<Rightarrow> real" where
  "frame_angle currentTime = of_nat (unat currentTime) / 1000"

text \<open>
  Lines 204 to 208. \<open>rotatedPlanes\<close> is the frame's array as it is before the loop (its
  contents are whatever the stack holds).
\<close>

definition rotate_step :: "Plane list \<Rightarrow> real \<Rightarrow> nat \<Rightarrow> Plane list \<Rightarrow> Plane list" where
  "rotate_step basePlanes angle i rotatedPlanes =
    rotatedPlanes[i := \<lparr>pn = rotate_v (pn (basePlanes ! i)) angle, pd = pd (basePlanes ! i)\<rparr>]"

definition rotate_planes :: "Plane list \<Rightarrow> int \<Rightarrow> real \<Rightarrow> Plane list \<Rightarrow> Plane list" where
  "rotate_planes basePlanes numPlanes angle rotatedPlanes =
    fold (rotate_step basePlanes angle) [0..<nat numPlanes] rotatedPlanes"

text \<open>Lines 213 to 215.\<close>

definition rayDir :: "int \<Rightarrow> int \<Rightarrow> Vec3" where
  "rayDir x y =
    (let u = (of_int x - halfWidth) / scaleFactor;
         v = (halfHeight - of_int y) / scaleFactor
     in normalize_v (vec u v 5))"

text \<open>Lines 217 to 234: the slab loop on the state \<open>(tNear, tFar, activePlaneIndex)\<close>.\<close>

record Slab =
  tNear :: real
  tFar :: real
  activePlaneIndex :: int

definition slab_init :: Slab where
  "slab_init = \<lparr>tNear = - (10 ^ 9), tFar = 10 ^ 9, activePlaneIndex = - 1\<rparr>"

definition slab_step :: "Plane list \<Rightarrow> Vec3 \<Rightarrow> nat \<Rightarrow> Slab \<Rightarrow> Slab" where
  "slab_step rotatedPlanes rd i s =
    (let denom = dot (pn (rotatedPlanes ! i)) rd
     in if \<bar>denom\<bar> < TOL then s
        else
          (let t = (pd (rotatedPlanes ! i) - dot (pn (rotatedPlanes ! i)) camPos) / denom
           in if denom < 0
              then (if t > tNear s then s\<lparr>tNear := t, activePlaneIndex := int i\<rparr> else s)
              else (if t < tFar s then s\<lparr>tFar := t\<rparr> else s)))"

definition slab_loop :: "Plane list \<Rightarrow> int \<Rightarrow> Vec3 \<Rightarrow> Slab" where
  "slab_loop rotatedPlanes numPlanes rd =
    fold (slab_step rotatedPlanes rd) [0..<nat numPlanes] slab_init"

text \<open>
  Lines 235 to 242: what the pixel is after the loop, the background or a hit with its
  parameter \<^verbatim>\<open>tHit\<close> and its normal \<^verbatim>\<open>surfNormal\<close>.
\<close>

datatype Outcome = Miss | Hit real Vec3

definition after_loop :: "Plane list \<Rightarrow> Slab \<Rightarrow> Outcome" where
  "after_loop rotatedPlanes s =
    (if tNear s > tFar s \<or> tFar s < 0 then Miss
     else
       (let tHit = (if tNear s \<ge> 0 then tNear s else tFar s);
            surfNormal = (if activePlaneIndex s \<ge> 0
                          then pn (rotatedPlanes ! nat (activePlaneIndex s))
                          else vec 0 0 1)
        in Hit tHit surfNormal))"

text \<open>
  The conversion \<^verbatim>\<open>(int)\<close> of a \<^verbatim>\<open>double\<close>: the fraction is discarded, and the behaviour is
  undefined when the result is not a 32-bit \<^verbatim>\<open>int\<close>.
\<close>

definition double_to_int :: "real \<Rightarrow> error + int" where
  "double_to_int r =
    (let t = (if r \<ge> 0 then \<lfloor>r\<rfloor> else \<lceil>r\<rceil>)
     in if - (2 ^ 31) \<le> t \<and> t < 2 ^ 31 then Inr t else Inl UndefinedCast)"

text \<open>Lines 244 to 246, from the value \<^verbatim>\<open>diff\<close> of line 243.\<close>

definition intensity :: "real \<Rightarrow> error + int" where
  "intensity diff0 =
    (let diff = (if diff0 < 0 then 0 else diff0)
     in case double_to_int (diff * 255) of
          Inl e \<Rightarrow> Inl e
        | Inr c \<Rightarrow> Inr (if c > 255 then 255 else c))"

text \<open>Line 247.\<close>

definition pack :: "int \<Rightarrow> 32 word" where
  "pack c = word_of_int (0 OR push_bit 16 c OR push_bit 8 c OR c)"

definition shade :: "Vec3 \<Rightarrow> error + 32 word" where
  "shade surfNormal =
    (case intensity (dot surfNormal lightDir) of
       Inl e \<Rightarrow> Inl e
     | Inr c \<Rightarrow> Inr (pack c))"

text \<open>The body of the loop over \<^verbatim>\<open>x\<close>: the value stored in \<^verbatim>\<open>pixels[y * WINDOW_WIDTH + x]\<close>.\<close>

definition pixel :: "Plane list \<Rightarrow> int \<Rightarrow> int \<Rightarrow> int \<Rightarrow> error + 32 word" where
  "pixel rotatedPlanes numPlanes x y =
    (case after_loop rotatedPlanes (slab_loop rotatedPlanes numPlanes (rayDir x y)) of
       Miss \<Rightarrow> Inr background
     | Hit tHit surfNormal \<Rightarrow> shade surfNormal)"

section \<open>Auxiliary notions for the proofs\<close>

text \<open>One iteration of the loop of lines 205 to 208 as a function on a plane.\<close>

definition rotated_of :: "real \<Rightarrow> Plane \<Rightarrow> Plane" where
  "rotated_of angle p = \<lparr>pn = rotate_v (pn p) angle, pd = pd p\<rparr>"

text \<open>
  Plane \<open>i\<close> is an entering face for the ray \<open>rd\<close> (lines 222 and 225), and the ray
  parameter at which the ray crosses it (line 224).
\<close>

definition entering :: "Plane list \<Rightarrow> Vec3 \<Rightarrow> nat \<Rightarrow> bool" where
  "entering ps rd i \<longleftrightarrow> \<not> \<bar>dot (pn (ps ! i)) rd\<bar> < TOL \<and> dot (pn (ps ! i)) rd < 0"

definition crossing :: "Plane list \<Rightarrow> Vec3 \<Rightarrow> nat \<Rightarrow> real" where
  "crossing ps rd i = (pd (ps ! i) - dot (pn (ps ! i)) camPos) / dot (pn (ps ! i)) rd"

text \<open>
  The invariant of the slab loop after \<open>n\<close> planes: either no entering plane has been
  recorded, or the recorded index is one of the first \<open>n\<close> planes, that plane is entering
  and \<open>tNear\<close> is its crossing parameter.
\<close>

definition slab_inv :: "Plane list \<Rightarrow> Vec3 \<Rightarrow> nat \<Rightarrow> Slab \<Rightarrow> bool" where
  "slab_inv ps rd n s \<longleftrightarrow>
     (activePlaneIndex s = - 1 \<and> tNear s = - (10 ^ 9)) \<or>
     (0 \<le> activePlaneIndex s \<and> nat (activePlaneIndex s) < n \<and>
      entering ps rd (nat (activePlaneIndex s)) \<and>
      tNear s = crossing ps rd (nat (activePlaneIndex s)))"

text \<open>The invariant of the triple loop of \<^verbatim>\<open>computeBasePlanes\<close>.\<close>

definition no_dups :: "int \<Rightarrow> Plane list \<Rightarrow> bool" where
  "no_dups count planes \<longleftrightarrow>
     (\<forall>p q. p < q \<and> q < nat count \<longrightarrow> \<not> is_dup (planes ! p) (pn (planes ! q)) (pd (planes ! q)))"

definition ext_inv :: "int \<Rightarrow> Plane list \<Rightarrow> int \<times> Plane list \<Rightarrow> bool" where
  "ext_inv maxPlanes planes0 st \<longleftrightarrow>
     (case st of (count, planes) \<Rightarrow>
        0 \<le> count \<and> count \<le> max 0 maxPlanes \<and> length planes = length planes0 \<and>
        (\<forall>i. nat count \<le> i \<longrightarrow> planes ! i = planes0 ! i) \<and>
        no_dups count planes)"

text \<open>The cross product of line 88 for the triple \<open>(i, j, k)\<close>.\<close>

definition tri_cross :: "Vec3 list \<Rightarrow> nat \<Rightarrow> nat \<Rightarrow> nat \<Rightarrow> Vec3" where
  "tri_cross vs i j k = cross (subtract (vs ! j) (vs ! i)) (subtract (vs ! k) (vs ! i))"

text \<open>A small input: four coplanar points, an unused buffer slot, and the two planes they yield.\<close>

definition square :: "Vec3 list" where
  "square = [vec 0 0 0, vec 1 0 0, vec 0 1 0, vec 1 1 0]"

definition blank :: Plane where "blank = \<lparr>pn = vec 0 0 0, pd = 0\<rparr>"
definition down :: Plane where "down = \<lparr>pn = vec 0 0 (- 1), pd = 0\<rparr>"
definition up :: Plane where "up = \<lparr>pn = vec 0 0 1, pd = 0\<rparr>"

section \<open>Exact arithmetic for the dodecahedron\<close>

text \<open>
  The coordinates of \<^verbatim>\<open>baseVertices\<close> are integer combinations \<open>a + b * phi\<close> of 1 and the
  golden ratio. A pair \<open>(a, b)\<close> of integers stands for that number; sums, differences and
  products of such numbers are computed on the pairs, with \<open>phi\<^sup>2 = phi + 1\<close>.
\<close>

type_synonym zphi = "int \<times> int"
type_synonym zvec = "zphi \<times> zphi \<times> zphi"

definition zval :: "zphi \<Rightarrow> real" where
  "zval z = of_int (fst z) + of_int (snd z) * phi"

definition zvec_val :: "zvec \<Rightarrow> Vec3" where
  "zvec_val p = (case p of (a, b, c) \<Rightarrow> vec (zval a) (zval b) (zval c))"

fun zadd :: "zphi \<Rightarrow> zphi \<Rightarrow> zphi" where
  "zadd (a, b) (c, d) = (a + c, b + d)"

fun zsub :: "zphi \<Rightarrow> zphi \<Rightarrow> zphi" where
  "zsub (a, b) (c, d) = (a - c, b - d)"

fun zmul :: "zphi \<Rightarrow> zphi \<Rightarrow> zphi" where
  "zmul (a, b) (c, d) = (a * c + b * d, a * d + b * c + b * d)"

text \<open>A sufficient test for \<open>0 < a + b * phi\<close>, from \<open>1.618033 < phi < 1.618034\<close>.\<close>

fun zpos :: "zphi \<Rightarrow> bool" where
  "zpos (a, b) =
     (if 0 \<le> b then 0 < a * 1000000 + b * 1618033 else 0 < a * 1000000 + b * 1618034)"

fun zvsub :: "zvec \<Rightarrow> zvec \<Rightarrow> zvec" where
  "zvsub (a1, a2, a3) (b1, b2, b3) = (zsub a1 b1, zsub a2 b2, zsub a3 b3)"

fun zdot :: "zvec \<Rightarrow> zvec \<Rightarrow> zphi" where
  "zdot (a1, a2, a3) (b1, b2, b3) = zadd (zadd (zmul a1 b1) (zmul a2 b2)) (zmul a3 b3)"

fun zcross :: "zvec \<Rightarrow> zvec \<Rightarrow> zvec" where
  "zcross (a1, a2, a3) (b1, b2, b3) =
     (zsub (zmul a2 b3) (zmul a3 b2),
      zsub (zmul a3 b1) (zmul a1 b3),
      zsub (zmul a1 b2) (zmul a2 b1))"

text \<open>The 20 vertices of \<^verbatim>\<open>baseVertices\<close>, in the order of the source, and a scaled vertex.\<close>

definition PZ :: "zvec list" where
  "PZ =
    [((- 1, 0), (- 1, 0), (- 1, 0)), ((- 1, 0), (- 1, 0), (1, 0)),
     ((- 1, 0), (1, 0), (- 1, 0)), ((- 1, 0), (1, 0), (1, 0)),
     ((1, 0), (- 1, 0), (- 1, 0)), ((1, 0), (- 1, 0), (1, 0)),
     ((1, 0), (1, 0), (- 1, 0)), ((1, 0), (1, 0), (1, 0)),
     ((0, 0), (1, - 1), (0, - 1)), ((0, 0), (1, - 1), (0, 1)),
     ((0, 0), (- 1, 1), (0, - 1)), ((0, 0), (- 1, 1), (0, 1)),
     ((0, - 1), (0, 0), (1, - 1)), ((0, - 1), (0, 0), (- 1, 1)),
     ((0, 1), (0, 0), (1, - 1)), ((0, 1), (0, 0), (- 1, 1)),
     ((1, - 1), (0, - 1), (0, 0)), ((1, - 1), (0, 1), (0, 0)),
     ((- 1, 1), (0, - 1), (0, 0)), ((- 1, 1), (0, 1), (0, 0))]"

definition hv :: "zvec \<Rightarrow> Vec3" where
  "hv p = scale (zvec_val p) modelScale"

text \<open>
  The twelve face normals \<open>(\<plusminus>phi, \<plusminus>1, 0)\<close>, \<open>(\<plusminus>1, 0, \<plusminus>phi)\<close>, \<open>(0, \<plusminus>phi, \<plusminus>1)\<close> before
  normalisation, the plane of a face, and for each face a triple of vertices on it.
\<close>

definition NZ :: "zvec list" where
  "NZ =
    [((0, - 1), (- 1, 0), (0, 0)), ((- 1, 0), (0, 0), (0, - 1)),
     ((0, 0), (0, - 1), (- 1, 0)), ((- 1, 0), (0, 0), (0, 1)),
     ((0, 0), (0, - 1), (1, 0)), ((0, - 1), (1, 0), (0, 0)),
     ((0, 0), (0, 1), (- 1, 0)), ((0, 0), (0, 1), (1, 0)),
     ((0, 1), (- 1, 0), (0, 0)), ((1, 0), (0, 0), (0, - 1)),
     ((1, 0), (0, 0), (0, 1)), ((0, 1), (1, 0), (0, 0))]"

definition face_plane :: "zvec \<Rightarrow> Plane" where
  "face_plane N =
    \<lparr>pn = scale (zvec_val N) (1 / length_v (zvec_val N)),
     pd = ((1 + phi) / 2) / length_v (zvec_val N)\<rparr>"

definition faces :: "Plane list" where
  "faces = map face_plane NZ"

definition face_triples :: "(nat \<times> nat \<times> nat) list" where
  "face_triples =
    [(0, 1, 12), (0, 2, 8), (0, 4, 8), (1, 3, 9), (1, 5, 9), (2, 3, 12),
     (2, 6, 10), (3, 7, 11), (4, 5, 14), (4, 6, 8), (5, 7, 9), (6, 7, 14)]"

text \<open>
  The tests on a triple of vertices \<open>p0\<close>, \<open>p1\<close>, \<open>p2\<close>. \<open>ztri\<close> is four times the cross
  product of line 88. \<open>zlen_ok\<close>: its squared length is between \<open>1/4\<close> and \<open>10000\<close>.
  \<open>zabove\<close> and \<open>zbelow\<close>: the vertex \<open>q\<close> is off the plane of the triple by more than the
  tolerance, on one side and on the other. \<open>zreject\<close>: there are vertices on both sides.
  \<open>zonface\<close>: the triple lies on the face with normal \<open>N\<close>.
\<close>

fun find_ex :: "('a \<Rightarrow> bool) \<Rightarrow> 'a list \<Rightarrow> bool" where
  "find_ex P [] = False"
| "find_ex P (x # xs) = (if P x then True else find_ex P xs)"

fun find_all :: "('a \<Rightarrow> bool) \<Rightarrow> 'a list \<Rightarrow> bool" where
  "find_all P [] = True"
| "find_all P (x # xs) = (if P x then find_all P xs else False)"

definition ztri :: "zvec \<Rightarrow> zvec \<Rightarrow> zvec \<Rightarrow> zvec" where
  "ztri p0 p1 p2 = zcross (zvsub p1 p0) (zvsub p2 p0)"

definition zlen_ok :: "zvec \<Rightarrow> bool" where
  "zlen_ok C =
    (if zpos (zsub (zmul (4, 0) (zdot C C)) (1, 0)) then zpos (zsub (10000, 0) (zdot C C))
     else False)"

definition zabove :: "zvec \<Rightarrow> zvec \<Rightarrow> zvec \<Rightarrow> bool" where
  "zabove C p0 q = zpos (zsub (zmul (100, 0) (zdot C (zvsub q p0))) (1, 0))"

definition zbelow :: "zvec \<Rightarrow> zvec \<Rightarrow> zvec \<Rightarrow> bool" where
  "zbelow C p0 q = zpos (zsub (- 1, 0) (zmul (100, 0) (zdot C (zvsub q p0))))"

definition zsides :: "zvec \<Rightarrow> zvec \<Rightarrow> bool" where
  "zsides C p0 =
    (if zlen_ok C
     then (if find_ex (zabove C p0) PZ then find_ex (zbelow C p0) PZ else False)
     else False)"

definition zreject :: "zvec \<Rightarrow> zvec \<Rightarrow> zvec \<Rightarrow> bool" where
  "zreject p0 p1 p2 = zsides (ztri p0 p1 p2) p0"

definition zparallel :: "zvec \<Rightarrow> zvec \<Rightarrow> zvec \<Rightarrow> bool" where
  "zparallel C p0 N =
    (if zcross C N = ((0, 0), (0, 0), (0, 0)) then zdot N p0 = (1, 1) else False)"

definition zonface :: "zvec \<Rightarrow> zvec \<Rightarrow> zvec \<Rightarrow> zvec \<Rightarrow> bool" where
  "zonface p0 p1 p2 N =
    (if zlen_ok (ztri p0 p1 p2) then zparallel (ztri p0 p1 p2) p0 N else False)"

definition zok :: "zvec \<Rightarrow> zvec \<Rightarrow> zvec \<Rightarrow> bool" where
  "zok p0 p1 p2 = (if zreject p0 p1 p2 then True else find_ex (zonface p0 p1 p2) NZ)"

text \<open>The three loops of \<^verbatim>\<open>computeBasePlanes\<close> over the vertices, running \<open>zok\<close> on every triple.\<close>

fun zloop3 :: "zvec \<Rightarrow> zvec \<Rightarrow> zvec list \<Rightarrow> bool" where
  "zloop3 p0 p1 [] = True"
| "zloop3 p0 p1 (p2 # ps) = (if zok p0 p1 p2 then zloop3 p0 p1 ps else False)"

fun zloop2 :: "zvec \<Rightarrow> zvec list \<Rightarrow> bool" where
  "zloop2 p0 [] = True"
| "zloop2 p0 (p1 # ps) = (if zloop3 p0 p1 ps then zloop2 p0 ps else False)"

fun zloop1 :: "zvec list \<Rightarrow> bool" where
  "zloop1 [] = True"
| "zloop1 (p0 # ps) = (if zloop2 p0 ps then zloop1 ps else False)"

text \<open>
  The tests on the face normals. \<open>zface_ok\<close>: \<open>N\<close> has squared length \<open>2 + phi\<close>, no vertex is
  beyond the plane \<open>dot N p = 1 + phi\<close>, and some vertex is well below it. \<open>zfar\<close>: the dot
  product of two normals is below \<open>1 + phi\<close>.
\<close>

definition zle :: "zphi \<Rightarrow> zphi \<Rightarrow> bool" where
  "zle a b = (if a = b then True else zpos (zsub b a))"

definition zinside :: "zvec \<Rightarrow> zvec \<Rightarrow> bool" where
  "zinside N q = zle (zdot N q) (1, 1)"

definition zdeep :: "zvec \<Rightarrow> zvec \<Rightarrow> bool" where
  "zdeep N q = zpos (zsub (zmul (1000, 0) (zsub (1, 1) (zdot N q))) (1, 0))"

definition zface_ok :: "zvec \<Rightarrow> bool" where
  "zface_ok N =
    (if zdot N N = (2, 1)
     then (if find_all (zinside N) PZ then find_ex (zdeep N) PZ else False)
     else False)"

definition zfar :: "zvec \<Rightarrow> zvec \<Rightarrow> bool" where
  "zfar N M = zpos (zsub (1, 1) (zdot N M))"

fun zpairwise_far :: "zvec list \<Rightarrow> bool" where
  "zpairwise_far [] = True"
| "zpairwise_far (N # Ns) = (if find_all (zfar N) Ns then zpairwise_far Ns else False)"

definition zwitness :: "(nat \<times> nat \<times> nat) \<times> zvec \<Rightarrow> bool" where
  "zwitness tN =
    (case tN of ((i, j, k), N) \<Rightarrow>
       (if i < j \<and> j < k \<and> k < 20 then zonface (PZ ! i) (PZ ! j) (PZ ! k) N else False))"

text \<open>
  The planes accepted so far in a state \<open>(count, planes)\<close> of \<^verbatim>\<open>computeBasePlanes\<close>, and the
  invariant of its loops on an input all of whose candidate planes belong to a list \<open>F\<close>.
\<close>

definition accepted :: "int \<times> Plane list \<Rightarrow> Plane set" where
  "accepted st = set (take (nat (fst st)) (snd st))"

definition face_inv :: "Plane list \<Rightarrow> Plane list \<Rightarrow> int \<times> Plane list \<Rightarrow> bool" where
  "face_inv F planes0 st \<longleftrightarrow>
     0 \<le> fst st \<and> nat (fst st) \<le> length (snd st) \<and> length (snd st) = length planes0 \<and>
     distinct (take (nat (fst st)) (snd st)) \<and> accepted st \<subseteq> set F"

section \<open>Lemmas\<close>

subsection \<open>Vector math\<close>

lemma sqrt3_ge_1: "1 \<le> sqrt 3"
  by simp

lemma lightDir_eq: "lightDir = vec (1 / sqrt 3) (1 / sqrt 3) (- (1 / sqrt 3))"
proof -
  have len: "length_v (vec 1 1 (- 1)) = sqrt 3"
    by (simp add: length_v_def dot_def vec_def)
  have "\<not> sqrt 3 < TOL"
  proof -
    have "(1::real) / 10 ^ 6 < 1" by simp
    with sqrt3_ge_1 show ?thesis unfolding TOL_def by linarith
  qed
  with len show ?thesis
    by (simp add: lightDir_def normalize_v_def Let_def vec_def)
qed

lemma dot_lightDir_self: "dot lightDir lightDir = 1"
  by (simp add: lightDir_eq dot_def vec_def)

lemma cauchy_schwarz_v: "(dot a b)\<^sup>2 \<le> dot a a * dot b b"
proof -
  have "dot a a * dot b b - (dot a b)\<^sup>2 =
      (vy a * vz b - vz a * vy b)\<^sup>2 + (vz a * vx b - vx a * vz b)\<^sup>2 + (vx a * vy b - vy a * vx b)\<^sup>2"
    by (simp add: dot_def power2_eq_square algebra_simps)
  moreover have "0 \<le> (vy a * vz b - vz a * vy b)\<^sup>2 + (vz a * vx b - vx a * vz b)\<^sup>2 + (vx a * vy b - vy a * vx b)\<^sup>2"
    by simp
  ultimately show ?thesis by linarith
qed

lemma dot_self_nonneg: "0 \<le> dot a a"
  by (simp add: dot_def)

lemma abs_dot_le: "\<bar>dot a b\<bar> \<le> length_v a * length_v b"
proof -
  have "\<bar>dot a b\<bar> = sqrt ((dot a b)\<^sup>2)" by simp
  also have "\<dots> \<le> sqrt (dot a a * dot b b)"
    using cauchy_schwarz_v by (rule real_sqrt_le_mono)
  also have "\<dots> = length_v a * length_v b"
    by (simp add: length_v_def real_sqrt_mult)
  finally show ?thesis .
qed

lemma dot_lightDir_le: "length_v nrm \<le> 1 \<Longrightarrow> dot nrm lightDir \<le> 1"
proof -
  assume "length_v nrm \<le> 1"
  have "length_v lightDir = 1" by (simp add: length_v_def dot_lightDir_self)
  with abs_dot_le [of nrm lightDir] \<open>length_v nrm \<le> 1\<close> show ?thesis by simp
qed

subsection \<open>Shading\<close>

lemma double_to_int_nonneg:
  "0 \<le> r \<Longrightarrow> r < 2 ^ 31 \<Longrightarrow> double_to_int r = Inr \<lfloor>r\<rfloor>"
  unfolding double_to_int_def Let_def
  by (simp add: floor_less_iff)

lemma double_to_int_undefined:
  "0 \<le> r \<Longrightarrow> \<not> r < 2 ^ 31 \<Longrightarrow> double_to_int r = Inl UndefinedCast"
  unfolding double_to_int_def Let_def
  by (simp add: floor_less_iff)

lemma clamp_min: "(if (z::int) > 255 then 255 else z) = min 255 z"
  by (simp add: min_def)

lemma intensity_eq:
  "intensity d = (if max 0 d * 255 < 2 ^ 31 then Inr (min 255 \<lfloor>max 0 d * 255\<rfloor>) else Inl UndefinedCast)"
proof (cases "max 0 d * 255 < 2 ^ 31")
  case True
  have "0 \<le> max 0 d * 255" by simp
  from double_to_int_nonneg [OF this True]
  have "double_to_int (max 0 d * 255) = Inr \<lfloor>max 0 d * 255\<rfloor>" .
  moreover have "(if d < 0 then 0 else d) = max 0 d" by (simp add: max_def)
  moreover have "(if \<lfloor>max 0 d * 255\<rfloor> > 255 then 255 else \<lfloor>max 0 d * 255\<rfloor>) = min 255 \<lfloor>max 0 d * 255\<rfloor>"
    by (rule clamp_min)
  ultimately show ?thesis using True
    by (simp only: intensity_def Let_def sum.case if_True)
next
  case False
  have "0 \<le> max 0 d * 255" by simp
  from double_to_int_undefined [OF this False]
  have "double_to_int (max 0 d * 255) = Inl UndefinedCast" .
  moreover have "(if d < 0 then 0 else d) = max 0 d" by (simp add: max_def)
  ultimately show ?thesis using False
    by (simp only: intensity_def Let_def sum.case if_False)
qed

lemma intensity_range: "intensity d = Inr c \<Longrightarrow> 0 \<le> c \<and> c \<le> 255"
  by (auto simp: intensity_eq split: if_splits)

lemma intensity_mono:
  assumes "d1 \<le> d2" "intensity d2 = Inr c2"
  shows "\<exists>c1. intensity d1 = Inr c1 \<and> c1 \<le> c2"
proof -
  from assms(2) have D2: "max 0 d2 * 255 < 2 ^ 31" and c2: "c2 = min 255 \<lfloor>max 0 d2 * 255\<rfloor>"
    by (auto simp: intensity_eq split: if_splits)
  from assms(1) have le: "max 0 d1 * 255 \<le> max 0 d2 * 255" by (simp add: max_def)
  with D2 have D1: "max 0 d1 * 255 < 2 ^ 31" by linarith
  from le have "\<lfloor>max 0 d1 * 255\<rfloor> \<le> \<lfloor>max 0 d2 * 255\<rfloor>" by (rule floor_mono)
  then have "min 255 \<lfloor>max 0 d1 * 255\<rfloor> \<le> c2" unfolding c2 by (rule min.mono [OF order_refl])
  with D1 show ?thesis by (simp add: intensity_eq)
qed

lemma intensity_nonpos: "d \<le> 0 \<Longrightarrow> intensity d = Inr 0"
  by (simp add: intensity_eq max_def)

lemma dot_scale_left: "dot (scale a s) b = s * dot a b"
  by (simp add: dot_def scale_def algebra_simps)

lemma intensity_antiparallel: "0 < k \<Longrightarrow> intensity (dot (scale lightDir (- k)) lightDir) = Inr 0"
  by (rule intensity_nonpos) (simp add: dot_scale_left dot_lightDir_self)

lemma intensity_defined: "length_v nrm \<le> 1 \<Longrightarrow> \<exists>c. intensity (dot nrm lightDir) = Inr c"
proof -
  assume "length_v nrm \<le> 1"
  then have "dot nrm lightDir \<le> 1" by (rule dot_lightDir_le)
  then have "max 0 (dot nrm lightDir) * 255 < 2 ^ 31" by (simp add: max_def)
  then show ?thesis by (simp add: intensity_eq)
qed

subsection \<open>The loops of the frame\<close>

lemma fold_upt_Suc: "fold f [0..<Suc n] s = f n (fold f [0..<n] s)"
  by simp

lemma fold_upt_invariant:
  assumes "P (0::nat) s" and "\<And>i t. i < n \<Longrightarrow> P i t \<Longrightarrow> P (Suc i) (f i t)"
  shows "P n (fold f [0..<n] s)"
  using assms
proof (induction n)
  case 0
  then show ?case by simp
next
  case (Suc n)
  have "P n (fold f [0..<n] s)"
    by (rule Suc.IH) (use Suc.prems in auto)
  then show ?case using Suc.prems(2) [of n] by simp
qed

lemma rotate_planes_fold:
  assumes "n \<le> length rp"
  shows "fold (rotate_step base angle) [0..<n] rp = map (\<lambda>i. rotated_of angle (base ! i)) [0..<n] @ drop n rp"
  using assms
proof (induction n)
  case 0
  then show ?case by simp
next
  case (Suc n)
  then have IH: "fold (rotate_step base angle) [0..<n] rp = map (\<lambda>i. rotated_of angle (base ! i)) [0..<n] @ drop n rp"
    by simp
  from Suc.prems have "drop n rp = rp ! n # drop (Suc n) rp"
    by (simp add: Cons_nth_drop_Suc)
  then have "fold (rotate_step base angle) [0..<Suc n] rp =
      rotate_step base angle n (map (\<lambda>i. rotated_of angle (base ! i)) [0..<n] @ rp ! n # drop (Suc n) rp)"
    by (simp only: fold_upt_Suc IH)
  also have "\<dots> = map (\<lambda>i. rotated_of angle (base ! i)) [0..<n] @ rotated_of angle (base ! n) # drop (Suc n) rp"
    by (simp add: rotate_step_def rotated_of_def list_update_append)
  finally show ?case by simp
qed

lemma rotate_planes_nth:
  assumes "nat numPlanes \<le> length rp" "i < nat numPlanes"
  shows "rotate_planes base numPlanes angle rp ! i = \<lparr>pn = rotate_v (pn (base ! i)) angle, pd = pd (base ! i)\<rparr>"
  using assms by (simp add: rotate_planes_def rotate_planes_fold nth_append rotated_of_def)

lemma rotate_planes_length:
  "length (rotate_planes base numPlanes angle rp) = length rp"
  unfolding rotate_planes_def
  by (rule fold_upt_invariant [where P = "\<lambda>i t. length t = length rp"]) (simp_all add: rotate_step_def)

lemma slab_step_inv: "slab_inv ps rd i s \<Longrightarrow> slab_inv ps rd (Suc i) (slab_step ps rd i s)"
  by (auto simp: slab_inv_def slab_step_def Let_def entering_def crossing_def)

lemma slab_loop_inv: "slab_inv ps rd (nat numPlanes) (slab_loop ps numPlanes rd)"
  unfolding slab_loop_def
proof (rule fold_upt_invariant)
  show "slab_inv ps rd 0 slab_init" by (simp add: slab_inv_def slab_init_def)
next
  fix i t assume "slab_inv ps rd i t"
  then show "slab_inv ps rd (Suc i) (slab_step ps rd i t)" by (rule slab_step_inv)
qed

lemma slab_loop_0: "slab_loop ps 0 rd = slab_init"
  by (simp add: slab_loop_def)

lemma shade_fallback: "shade (vec 0 0 1) = Inr 0"
proof -
  have "dot (vec 0 0 1) lightDir = - (1 / sqrt 3)"
    by (simp add: lightDir_eq dot_def vec_def)
  moreover have "- (1 / sqrt 3) \<le> 0" by simp
  ultimately have "intensity (dot (vec 0 0 1) lightDir) = Inr 0"
    by (simp only: intensity_nonpos)
  then show ?thesis by (simp add: shade_def pack_def)
qed

lemma empty_pixel:
  "pixel ps 0 x y = Inr 0 \<and> after_loop ps (slab_loop ps 0 (rayDir x y)) = Hit (10 ^ 9) (vec 0 0 1)"
  by (simp add: pixel_def slab_loop_0 after_loop_def slab_init_def shade_fallback Let_def)

lemma bg_ne: "background \<noteq> 0"
  by (simp add: background_def)

lemma rayDir_center: "rayDir 400 300 = vec 0 0 1"
proof -
  have "length_v (vec 0 0 5) = 5"
  proof -
    have "sqrt 25 = sqrt (5\<^sup>2)" by simp
    then have "sqrt 25 = 5" by (simp only: real_sqrt_abs)
    then show ?thesis by (simp add: length_v_def dot_def vec_def)
  qed
  then show ?thesis
    by (simp add: rayDir_def halfWidth_def halfHeight_def WINDOW_WIDTH_def WINDOW_HEIGHT_def
        scaleFactor_def normalize_v_def Let_def TOL_def vec_def)
qed

lemma far_plane_ignored:
  "slab_loop [\<lparr>pn = vec 0 0 (- 1), pd = 3 * 10 ^ 9\<rparr>] 1 (rayDir 400 300) = slab_init"
  by (simp add: slab_loop_def slab_step_def rayDir_center dot_def vec_def camPos_def TOL_def
      slab_init_def Let_def)

subsection \<open>Invariants of computeBasePlanes\<close>

lemma for_each_total:
  assumes "P s" and "\<And>i t. i \<in> set xs \<Longrightarrow> P t \<Longrightarrow> \<exists>t'. body i t = Inr t' \<and> P t'"
  shows "\<exists>s'. for_each xs body s = Inr s' \<and> P s'"
  using assms
proof (induction xs arbitrary: s)
  case Nil
  then show ?case by simp
next
  case (Cons i xs)
  from Cons.prems obtain t' where t': "body i s = Inr t'" "P t'"
    by (meson list.set_intros(1))
  have "\<exists>s'. for_each xs body t' = Inr s' \<and> P s'"
    by (rule Cons.IH [OF t'(2)]) (use Cons.prems(2) in auto)
  with t'(1) show ?case by simp
qed

lemma dup_loop_iff:
  "dup_loop planes count p n d \<longleftrightarrow> (\<exists>q. p \<le> q \<and> q < count \<and> is_dup (planes ! nat q) n d)"
proof (induction planes count p n d rule: dup_loop.induct)
  case (1 planes count p n d)
  show ?case
  proof (cases "p < count")
    case False
    then show ?thesis by (subst dup_loop.simps) auto
  next
    case True
    show ?thesis
    proof (cases "is_dup (planes ! nat p) n d")
      case dup: True
      with True show ?thesis by (subst dup_loop.simps) auto
    next
      case nodup: False
      have "dup_loop planes count p n d = dup_loop planes count (p + 1) n d"
        using True nodup by (subst dup_loop.simps) simp
      also have "\<dots> \<longleftrightarrow> (\<exists>q. p + 1 \<le> q \<and> q < count \<and> is_dup (planes ! nat q) n d)"
        by (rule "1.IH" [OF True nodup])
      also have "\<dots> \<longleftrightarrow> (\<exists>q. p \<le> q \<and> q < count \<and> is_dup (planes ! nat q) n d)"
      proof
        assume "\<exists>q. p + 1 \<le> q \<and> q < count \<and> is_dup (planes ! nat q) n d"
        then obtain q where "p + 1 \<le> q" "q < count" "is_dup (planes ! nat q) n d" by blast
        then have "p \<le> q \<and> q < count \<and> is_dup (planes ! nat q) n d" by simp
        then show "\<exists>q. p \<le> q \<and> q < count \<and> is_dup (planes ! nat q) n d" ..
      next
        assume "\<exists>q. p \<le> q \<and> q < count \<and> is_dup (planes ! nat q) n d"
        then obtain q where q: "p \<le> q" "q < count" "is_dup (planes ! nat q) n d" by blast
        with nodup have "q \<noteq> p" by auto
        with q have "p + 1 \<le> q \<and> q < count \<and> is_dup (planes ! nat q) n d" by simp
        then show "\<exists>q. p + 1 \<le> q \<and> q < count \<and> is_dup (planes ! nat q) n d" ..
      qed
      finally show ?thesis .
    qed
  qed
qed

lemma is_dup_sym: "is_dup p (pn q) (pd q) \<longleftrightarrow> is_dup q (pn p) (pd p)"
proof -
  have "dot (pn p) (pn q) = dot (pn q) (pn p)" by (simp add: dot_def mult.commute)
  moreover have "\<bar>pd p - pd q\<bar> = \<bar>pd q - pd p\<bar>" by simp
  ultimately show ?thesis by (simp add: is_dup_def)
qed

lemma accept_inv:
  assumes "maxPlanes \<le> int (length planes0)" "ext_inv maxPlanes planes0 st"
  shows "\<exists>st'. accept maxPlanes c st = Inr st' \<and> ext_inv maxPlanes planes0 st'"
proof -
  obtain count planes where st: "st = (count, planes)" by (cases st)
  from assms(2) have inv: "0 \<le> count" "count \<le> max 0 maxPlanes" "length planes = length planes0"
    "\<forall>i. nat count \<le> i \<longrightarrow> planes ! i = planes0 ! i" "no_dups count planes"
    by (simp_all add: ext_inv_def st)
  show ?thesis
  proof (cases "\<not> dup_loop planes count 0 (pn c) (pd c) \<and> count < maxPlanes")
    case False
    then have "accept maxPlanes c st = Inr st"
      by (auto simp: accept_def st Let_def)
    with assms(2) show ?thesis by simp
  next
    case True
    then have nd: "\<forall>q. 0 \<le> q \<and> q < count \<longrightarrow> \<not> is_dup (planes ! nat q) (pn c) (pd c)"
      and lt: "count < maxPlanes"
      by (auto simp: dup_loop_iff)
    from lt assms(1) inv have inb: "nat count < length planes" by linarith
    let ?planes' = "planes[nat count := \<lparr>pn = pn c, pd = pd c\<rparr>]"
    have acc: "accept maxPlanes c st = Inr (count + 1, ?planes')"
      using True inb inv(1) by (simp add: accept_def st Let_def)
    have nat_suc: "nat (count + 1) = Suc (nat count)" using inv(1) by simp
    have "no_dups (count + 1) ?planes'"
      unfolding no_dups_def
    proof (intro allI impI)
      fix p q assume pq: "p < q \<and> q < nat (count + 1)"
      show "\<not> is_dup (?planes' ! p) (pn (?planes' ! q)) (pd (?planes' ! q))"
      proof (cases "q = nat count")
        case True
        with pq have p: "p < nat count" by simp
        then have "0 \<le> int p \<and> int p < count" by linarith
        with nd have "\<not> is_dup (planes ! nat (int p)) (pn c) (pd c)" by blast
        with True p inb show ?thesis by simp
      next
        case False
        with pq nat_suc have "q < nat count" by linarith
        with pq inv(5) have "\<not> is_dup (planes ! p) (pn (planes ! q)) (pd (planes ! q))"
          by (simp add: no_dups_def)
        with \<open>q < nat count\<close> pq show ?thesis by simp
      qed
    qed
    moreover have "\<forall>i. nat (count + 1) \<le> i \<longrightarrow> ?planes' ! i = planes0 ! i"
      using inv(4) nat_suc by simp
    moreover have "count + 1 \<le> max 0 maxPlanes" using lt by simp
    ultimately have "ext_inv maxPlanes planes0 (count + 1, ?planes')"
      using inv by (simp add: ext_inv_def)
    with acc show ?thesis by simp
  qed
qed

lemma triple_body_inv:
  assumes "maxPlanes \<le> int (length planes0)" "ext_inv maxPlanes planes0 st"
  shows "\<exists>st'. triple_body vertices maxPlanes i j k st = Inr st' \<and> ext_inv maxPlanes planes0 st'"
proof (cases "candidate vertices i j k")
  case None
  with assms(2) show ?thesis by (simp add: triple_body_def)
next
  case (Some c)
  with accept_inv [OF assms, of c] show ?thesis by (simp add: triple_body_def)
qed

lemma computeBasePlanes_inv:
  assumes "maxPlanes \<le> int (length planes)"
  shows "\<exists>st'. computeBasePlanes vertices planes maxPlanes = Inr st' \<and> ext_inv maxPlanes planes st'"
  unfolding computeBasePlanes_def Let_def
proof (rule for_each_total, goal_cases)
  case 1
  show ?case by (simp add: ext_inv_def no_dups_def)
next
  case (2 i t)
  show ?case
  proof (rule for_each_total, goal_cases)
    case 1
    show ?case by (rule 2(2))
  next
    case (2 j u)
    show ?case
    proof (rule for_each_total, goal_cases)
      case 1
      show ?case by (rule 2(2))
    next
      case (2 k w)
      show ?case by (rule triple_body_inv [OF assms 2(2)])
    qed
  qed
qed

subsection \<open>The candidate plane of a triple\<close>

lemma side_fold:
  "fold (side_step n d) vs (b, a) =
     (b \<and> (\<forall>v\<in>set vs. \<not> dot n v - d > TOL), a \<and> (\<forall>v\<in>set vs. \<not> dot n v - d < - TOL))"
  by (induction vs arbitrary: b a) (auto simp: side_step_def Let_def)

lemma side_loop_eq:
  "side_loop vs n d = ((\<forall>v\<in>set vs. dot n v - d \<le> TOL), (\<forall>v\<in>set vs. - TOL \<le> dot n v - d))"
  by (simp add: side_loop_def side_fold not_less)

lemma TOL_pos: "0 < TOL"
  by (simp add: TOL_def)

lemma length_v_nonneg: "0 \<le> length_v v"
  by (simp add: length_v_def dot_self_nonneg)

lemma normalize_v_scale: "TOL \<le> length_v v \<Longrightarrow> normalize_v v = scale v (1 / length_v v)"
  by (simp add: normalize_v_def scale_def Let_def)

lemma dot_scale_right: "dot a (scale b s) = s * dot a b"
  by (simp add: dot_def scale_def algebra_simps)

lemma scale_scale: "scale (scale v s) t = scale v (s * t)"
  by (simp add: scale_def algebra_simps)

lemma length_v_scale: "length_v (scale v s) = \<bar>s\<bar> * length_v v"
proof -
  have "dot (scale v s) (scale v s) = s\<^sup>2 * dot v v"
    by (simp add: dot_def scale_def power2_eq_square algebra_simps)
  then show ?thesis by (simp add: length_v_def real_sqrt_mult)
qed

lemma candidate_unfold:
  assumes L: "TOL \<le> length_v (tri_cross vs i j k)"
  shows "candidate vs i j k =
    (let c = tri_cross vs i j k; L = length_v c; n = scale c (1 / L); d = dot c (vs ! i) / L;
         allBelow = (\<forall>v\<in>set vs. dot c v - dot c (vs ! i) \<le> TOL * L);
         allAbove = (\<forall>v\<in>set vs. - (TOL * L) \<le> dot c v - dot c (vs ! i))
     in if \<not> (allBelow \<or> allAbove) then None
        else if allAbove then Some \<lparr>pn = scale n (- 1), pd = - d\<rparr>
        else Some \<lparr>pn = n, pd = d\<rparr>)"
proof -
  define c where "c = tri_cross vs i j k"
  define L where "L = length_v c"
  have Lpos: "0 < L" using L TOL_pos unfolding L_def c_def by linarith
  have nL: "\<not> L < TOL" using L unfolding L_def c_def by simp
  have norm: "normalize_v c = scale c (1 / L)"
    unfolding L_def by (rule normalize_v_scale) (use L in \<open>simp add: c_def\<close>)
  have side: "dot (scale c (1 / L)) v - dot (scale c (1 / L)) (vs ! i) = (dot c v - dot c (vs ! i)) / L" for v
    by (simp add: dot_scale_left diff_divide_distrib)
  have below: "(dot c v - dot c (vs ! i)) / L \<le> TOL \<longleftrightarrow> dot c v - dot c (vs ! i) \<le> TOL * L" for v
    using Lpos by (simp add: pos_divide_le_eq)
  have above: "- TOL \<le> (dot c v - dot c (vs ! i)) / L \<longleftrightarrow> - (TOL * L) \<le> dot c v - dot c (vs ! i)" for v
    using Lpos by (simp add: pos_le_divide_eq)
  have d: "dot (scale c (1 / L)) (vs ! i) = dot c (vs ! i) / L"
    by (simp add: dot_scale_left)
  have "candidate vs i j k =
     (case side_loop vs (normalize_v c) (dot (normalize_v c) (vs ! i)) of (allBelow, allAbove) \<Rightarrow>
                if \<not> (allBelow \<or> allAbove) then None
                else if allAbove then Some \<lparr>pn = scale (normalize_v c) (- 1), pd = - dot (normalize_v c) (vs ! i)\<rparr>
                else Some \<lparr>pn = normalize_v c, pd = dot (normalize_v c) (vs ! i)\<rparr>)"
    using nL unfolding candidate_def Let_def c_def L_def tri_cross_def by simp
  also have "\<dots> = (let allBelow = (\<forall>v\<in>set vs. dot c v - dot c (vs ! i) \<le> TOL * L);
         allAbove = (\<forall>v\<in>set vs. - (TOL * L) \<le> dot c v - dot c (vs ! i))
     in if \<not> (allBelow \<or> allAbove) then None
        else if allAbove then Some \<lparr>pn = scale (scale c (1 / L)) (- 1), pd = - (dot c (vs ! i) / L)\<rparr>
        else Some \<lparr>pn = scale c (1 / L), pd = dot c (vs ! i) / L\<rparr>)"
  proof -
    have sl: "side_loop vs (normalize_v c) (dot (normalize_v c) (vs ! i)) =
        ((\<forall>v\<in>set vs. dot c v - dot c (vs ! i) \<le> TOL * L),
         (\<forall>v\<in>set vs. - (TOL * L) \<le> dot c v - dot c (vs ! i)))"
      by (simp only: norm side_loop_eq side below above)
    show ?thesis
      by (simp only: sl prod.case Let_def) (simp only: norm d)
  qed
  finally show ?thesis unfolding Let_def c_def L_def .
qed

lemma candidate_reject:
  assumes L: "TOL \<le> length_v (tri_cross vs i j k)"
    and u: "u \<in> set vs" "dot (tri_cross vs i j k) u - dot (tri_cross vs i j k) (vs ! i) > TOL * length_v (tri_cross vs i j k)"
    and w: "w \<in> set vs" "dot (tri_cross vs i j k) w - dot (tri_cross vs i j k) (vs ! i) < - (TOL * length_v (tri_cross vs i j k))"
  shows "candidate vs i j k = None"
proof -
  have "\<not> (\<forall>v\<in>set vs. dot (tri_cross vs i j k) v - dot (tri_cross vs i j k) (vs ! i) \<le> TOL * length_v (tri_cross vs i j k))"
    using u by (auto simp: not_le)
  moreover have "\<not> (\<forall>v\<in>set vs. - (TOL * length_v (tri_cross vs i j k)) \<le> dot (tri_cross vs i j k) v - dot (tri_cross vs i j k) (vs ! i))"
    using w by (auto simp: not_le)
  ultimately show ?thesis
    by (simp add: candidate_unfold [OF L] Let_def)
qed

lemma candidate_face:
  assumes c: "tri_cross vs i j k = scale N lam" and lam: "lam \<noteq> 0" and N: "0 < length_v N"
    and L: "TOL \<le> length_v (tri_cross vs i j k)"
    and le: "\<forall>v\<in>set vs. dot N v \<le> D" and on: "dot N (vs ! i) = D"
    and w: "w \<in> set vs" "dot N w < D - TOL * length_v N"
  shows "candidate vs i j k = Some \<lparr>pn = scale N (1 / length_v N), pd = D / length_v N\<rparr>"
proof -
  define LN where "LN = length_v N"
  have Lc: "length_v (tri_cross vs i j k) = \<bar>lam\<bar> * LN"
    by (simp add: c length_v_scale LN_def)
  have diff: "dot (tri_cross vs i j k) v - dot (tri_cross vs i j k) (vs ! i) = lam * (dot N v - D)" for v
    by (simp add: c dot_scale_left on algebra_simps)
  have LNpos: "0 < LN" using N by (simp add: LN_def)
  show ?thesis
  proof (cases "0 < lam")
    case True
    then have abs: "\<bar>lam\<bar> = lam" by simp
    have below: "\<forall>v\<in>set vs. lam * (dot N v - D) \<le> TOL * (lam * LN)"
    proof
      fix v assume "v \<in> set vs"
      with le have "dot N v - D \<le> 0" by simp
      with True have "lam * (dot N v - D) \<le> 0" by (simp add: mult_le_0_iff)
      moreover have "0 \<le> TOL * (lam * LN)" using True LNpos TOL_pos by simp
      ultimately show "lam * (dot N v - D) \<le> TOL * (lam * LN)" by linarith
    qed
    have "dot N w - D < - (TOL * LN)"
      using w(2) by (simp add: LN_def)
    with True have "lam * (dot N w - D) < lam * (- (TOL * LN))"
      by (rule mult_strict_left_mono [rotated])
    then have "\<not> - (TOL * (lam * LN)) \<le> lam * (dot N w - D)"
      by (simp add: algebra_simps)
    with w(1) have "\<not> (\<forall>v\<in>set vs. - (TOL * (lam * LN)) \<le> lam * (dot N v - D))"
      by blast
    then have above: "(\<forall>v\<in>set vs. - (TOL * (lam * LN)) \<le> lam * (dot N v - D)) = False"
      by simp
    from below have below: "(\<forall>v\<in>set vs. lam * (dot N v - D) \<le> TOL * (lam * LN)) = True"
      by simp
    have n: "scale (scale N lam) (1 / (lam * LN)) = scale N (1 / LN)"
      using True by (simp add: scale_scale)
    have d: "dot (scale N lam) (vs ! i) / (lam * LN) = D / LN"
      using True by (simp add: dot_scale_left on)
    show ?thesis
      unfolding candidate_unfold [OF L] Let_def Lc abs diff
      by (simp only: below above c n d LN_def [symmetric] simp_thms if_True if_False)
  next
    case False
    with lam have neg: "lam < 0" by simp
    then have abs: "\<bar>lam\<bar> = - lam" by simp
    have above: "\<forall>v\<in>set vs. - (TOL * (- lam * LN)) \<le> lam * (dot N v - D)"
    proof
      fix v assume "v \<in> set vs"
      with le have "dot N v - D \<le> 0" by simp
      with neg have "0 \<le> lam * (dot N v - D)" by (simp add: zero_le_mult_iff)
      moreover have "0 \<le> TOL * (- lam * LN)"
      proof -
        from neg LNpos have "0 \<le> - lam * LN" by (simp add: mult_le_0_iff)
        with TOL_pos show ?thesis by (simp only: zero_le_mult_iff) simp
      qed
      ultimately show "- (TOL * (- lam * LN)) \<le> lam * (dot N v - D)" by linarith
    qed
    from above have above: "(\<forall>v\<in>set vs. - (TOL * (- lam * LN)) \<le> lam * (dot N v - D)) = True"
      by simp
    have n: "scale (scale (scale N lam) (1 / (- lam * LN))) (- 1) = scale N (1 / LN)"
      using neg by (simp add: scale_scale)
    have d: "- (dot (scale N lam) (vs ! i) / (- lam * LN)) = D / LN"
      using neg by (simp add: dot_scale_left on)
    show ?thesis
      unfolding candidate_unfold [OF L] Let_def Lc abs diff
      by (simp only: above c n d LN_def [symmetric] simp_thms if_True if_False)
  qed
qed

lemma parallel_scale:
  assumes "cross c N = vec 0 0 0" and "0 < dot N N"
  shows "c = scale N (dot c N / dot N N)"
proof -
  from assms(1) have e: "vy c * vz N = vz c * vy N" "vz c * vx N = vx c * vz N" "vx c * vy N = vy c * vx N"
    by (simp_all add: cross_def vec_def)
  have x: "vx N * dot c N = vx c * dot N N"
  proof -
    have "vx N * dot c N = vx c * (vx N * vx N) + (vy c * vx N) * vy N + (vz c * vx N) * vz N"
      by (simp add: dot_def algebra_simps)
    also have "\<dots> = vx c * (vx N * vx N) + (vx c * vy N) * vy N + (vx c * vz N) * vz N"
      by (simp only: e)
    also have "\<dots> = vx c * dot N N" by (simp add: dot_def algebra_simps)
    finally show ?thesis .
  qed
  have y: "vy N * dot c N = vy c * dot N N"
  proof -
    have "vy N * dot c N = (vx c * vy N) * vx N + vy c * (vy N * vy N) + (vz c * vy N) * vz N"
      by (simp add: dot_def algebra_simps)
    also have "\<dots> = (vy c * vx N) * vx N + vy c * (vy N * vy N) + (vy c * vz N) * vz N"
      by (simp only: e)
    also have "\<dots> = vy c * dot N N" by (simp add: dot_def algebra_simps)
    finally show ?thesis .
  qed
  have z: "vz N * dot c N = vz c * dot N N"
  proof -
    have "vz N * dot c N = (vx c * vz N) * vx N + (vy c * vz N) * vy N + vz c * (vz N * vz N)"
      by (simp add: dot_def algebra_simps)
    also have "\<dots> = (vz c * vx N) * vx N + (vz c * vy N) * vy N + vz c * (vz N * vz N)"
      by (simp only: e)
    also have "\<dots> = vz c * dot N N" by (simp add: dot_def algebra_simps)
    finally show ?thesis .
  qed
  from assms(2) x y z show ?thesis
    by (simp add: scale_def field_simps)
qed


subsection \<open>Runs on small inputs\<close>

lemma tiny_length: "length_v (vec (1 / 10 ^ 7) 0 0) = 1 / 10 ^ 7"
proof -
  have "dot (vec (1 / 10 ^ 7) 0 0) (vec (1 / 10 ^ 7) 0 0) = (1 / 10 ^ 7)\<^sup>2"
    by (simp add: dot_def vec_def power2_eq_square)
  then show ?thesis by (simp add: length_v_def)
qed

lemma length_v_unit_z: "length_v (vec 0 0 1) = 1" "length_v (vec 0 0 (- 1)) = 1"
  by (simp_all add: length_v_def dot_def vec_def)

lemma candidate_flat:
  assumes i: "i < 4" and c: "tri_cross square i j k = vec 0 0 s" and s: "s = 1 \<or> s = - 1"
  shows "candidate square i j k = Some \<lparr>pn = vec 0 0 (- s), pd = 0\<rparr>"
proof -
  have l: "length_v (vec 0 0 s) = 1"
    using s length_v_unit_z by auto
  have L: "TOL \<le> length_v (tri_cross square i j k)"
    unfolding c l TOL_def by simp
  have z: "dot (vec 0 0 s) v = 0" if "v \<in> set square" for v
    using that by (auto simp: square_def dot_def vec_def)
  have "length square = 4" by (simp add: square_def)
  with i have "square ! i \<in> set square" by (simp only: nth_mem)
  then have zi: "dot (vec 0 0 s) (square ! i) = 0" by (rule z)
  have below: "(\<forall>v\<in>set square. dot (vec 0 0 s) v - 0 \<le> TOL * 1) = True"
    by (simp add: z TOL_def)
  have above: "(\<forall>v\<in>set square. - (TOL * 1) \<le> dot (vec 0 0 s) v - 0) = True"
    by (simp add: z TOL_def)
  have n: "scale (scale (vec 0 0 s) (1 / 1)) (- 1) = vec 0 0 (- s)"
    by (simp add: scale_def vec_def)
  show ?thesis
    unfolding candidate_unfold [OF L] c l Let_def zi
    by (simp only: below above n simp_thms if_True if_False) simp
qed

lemma candidate_square:
  "candidate square 0 (Suc 0) (Suc (Suc 0)) = Some down"
  "candidate square 0 (Suc 0) (Suc (Suc (Suc 0))) = Some down"
  "candidate square 0 (Suc (Suc 0)) (Suc (Suc (Suc 0))) = Some up"
  "candidate square (Suc 0) (Suc (Suc 0)) (Suc (Suc (Suc 0))) = Some up"
proof -
  have "tri_cross square 0 (Suc 0) (Suc (Suc 0)) = vec 0 0 1"
    by (simp add: tri_cross_def square_def cross_def subtract_def vec_def)
  from candidate_flat [OF _ this] show "candidate square 0 (Suc 0) (Suc (Suc 0)) = Some down"
    by (simp add: down_def)
  have "tri_cross square 0 (Suc 0) (Suc (Suc (Suc 0))) = vec 0 0 1"
    by (simp add: tri_cross_def square_def cross_def subtract_def vec_def)
  from candidate_flat [OF _ this] show "candidate square 0 (Suc 0) (Suc (Suc (Suc 0))) = Some down"
    by (simp add: down_def)
  have "tri_cross square 0 (Suc (Suc 0)) (Suc (Suc (Suc 0))) = vec 0 0 (- 1)"
    by (simp add: tri_cross_def square_def cross_def subtract_def vec_def)
  from candidate_flat [OF _ this] show "candidate square 0 (Suc (Suc 0)) (Suc (Suc (Suc 0))) = Some up"
    by (simp add: up_def)
  have "tri_cross square (Suc 0) (Suc (Suc 0)) (Suc (Suc (Suc 0))) = vec 0 0 (- 1)"
    by (simp add: tri_cross_def square_def cross_def subtract_def vec_def)
  from candidate_flat [OF _ this] show "candidate square (Suc 0) (Suc (Suc 0)) (Suc (Suc (Suc 0))) = Some up"
    by (simp add: up_def)
qed

lemma is_dup_square:
  "is_dup down (vec 0 0 (- 1)) 0" "\<not> is_dup down (vec 0 0 1) 0" "is_dup up (vec 0 0 1) 0"
  by (simp_all add: is_dup_def down_def up_def dot_def vec_def)

lemma compute_square:
  "computeBasePlanes square [blank, blank, blank] 3 = Inr (2, [down, up, blank])"
proof -
  have len: "length square = 4" by (simp add: square_def)
  have pl: "pn down = vec 0 0 (- 1)" "pd down = 0" "pn up = vec 0 0 1" "pd up = 0"
    "\<lparr>pn = vec 0 0 (- 1), pd = 0\<rparr> = down" "\<lparr>pn = vec 0 0 1, pd = 0\<rparr> = up"
    by (simp_all add: down_def up_def)
  show ?thesis
    by (simp add: computeBasePlanes_def Let_def triple_body_def candidate_square accept_def
        dup_loop.simps len upt_rec pl is_dup_square)
qed

lemma compute_square_full:
  "computeBasePlanes square [blank] 1 = Inr (1, [down])"
proof -
  have len: "length square = 4" by (simp add: square_def)
  have pl: "pn down = vec 0 0 (- 1)" "pd down = 0" "pn up = vec 0 0 1" "pd up = 0"
    "\<lparr>pn = vec 0 0 (- 1), pd = 0\<rparr> = down" "\<lparr>pn = vec 0 0 1, pd = 0\<rparr> = up"
    by (simp_all add: down_def up_def)
  show ?thesis
    by (simp add: computeBasePlanes_def Let_def triple_body_def candidate_square accept_def
        dup_loop.simps len upt_rec pl is_dup_square)
qed

lemma slab_miss_example:
  "slab_loop [\<lparr>pn = vec 0 0 1, pd = - 10\<rparr>] 1 (rayDir 400 300) =
     \<lparr>tNear = - (10 ^ 9), tFar = - 5, activePlaneIndex = - 1\<rparr>"
  by (simp add: slab_loop_def slab_step_def rayDir_center dot_def vec_def camPos_def TOL_def
      slab_init_def Let_def)

lemma slab_hit_example:
  "slab_loop [\<lparr>pn = vec 0 0 (- 1), pd = 1\<rparr>] 1 (rayDir 400 300) =
     \<lparr>tNear = 4, tFar = 10 ^ 9, activePlaneIndex = 0\<rparr>"
  by (simp add: slab_loop_def slab_step_def rayDir_center dot_def vec_def camPos_def TOL_def
      slab_init_def Let_def)

subsection \<open>The golden ratio and the arithmetic on pairs\<close>

lemma sqrt5_bounds: "2236066 / 1000000 < sqrt 5" "sqrt 5 < 2236068 / 1000000"
proof -
  have "(2236066 / 1000000 :: real)\<^sup>2 < 5" by (simp add: power2_eq_square)
  then show "2236066 / 1000000 < sqrt 5" by (rule real_less_rsqrt)
  have "(5::real) < (2236068 / 1000000)\<^sup>2" by (simp add: power2_eq_square)
  then show "sqrt 5 < 2236068 / 1000000" by (intro real_less_lsqrt) simp_all
qed

lemma phi_bounds: "1618033 / 1000000 < phi" "phi < 1618034 / 1000000"
  using sqrt5_bounds by (simp_all add: phi_def)

lemma phi_pos: "0 < phi"
  using phi_bounds(1) by simp

lemma phi_sq: "phi * phi = phi + 1"
proof -
  have "sqrt 5 * sqrt 5 = 5" by simp
  then show ?thesis by (simp add: phi_def field_simps)
qed

lemma invphi_eq: "invphi = phi - 1"
proof -
  have "phi * (phi - 1) = 1" using phi_sq by (simp add: algebra_simps)
  with phi_pos show ?thesis by (simp add: invphi_def field_simps)
qed

lemma zval_simps [simp]: "zval (a, b) = of_int a + of_int b * phi"
  by (simp add: zval_def)

lemma zval_zadd: "zval (zadd u w) = zval u + zval w"
  by (cases u, cases w) (simp add: algebra_simps)

lemma zval_zsub: "zval (zsub u w) = zval u - zval w"
  by (cases u, cases w) (simp add: algebra_simps)

lemma zval_zmul: "zval (zmul u w) = zval u * zval w"
proof (cases u, cases w)
  fix a b c d assume u: "u = (a, b)" and w: "w = (c, d)"
  have "(of_int a + of_int b * phi) * (of_int c + of_int d * phi) =
      of_int a * of_int c + (of_int a * of_int d + of_int b * of_int c) * phi + of_int b * of_int d * (phi * phi)"
    by (simp add: algebra_simps)
  also have "\<dots> = of_int (a * c + b * d) + of_int (a * d + b * c + b * d) * phi"
    by (simp add: phi_sq algebra_simps)
  finally show ?thesis by (simp add: u w)
qed

lemma zpos_sound: "zpos z \<Longrightarrow> 0 < zval z"
proof (cases z)
  fix a b assume z: "z = (a, b)" and p: "zpos z"
  show ?thesis
  proof (cases "0 \<le> b")
    case True
    with p z have "0 < a * 1000000 + b * 1618033" by simp
    then have "(0::real) < of_int (a * 1000000 + b * 1618033)" by (simp only: of_int_0_less_iff)
    then have "(0::real) < of_int a + of_int b * (1618033 / 1000000)" by simp
    moreover from True phi_bounds(1) have "of_int b * (1618033 / 1000000) \<le> of_int b * phi"
      by (intro mult_left_mono) simp_all
    ultimately show ?thesis by (simp add: z)
  next
    case False
    with p z have "0 < a * 1000000 + b * 1618034" by simp
    then have "(0::real) < of_int (a * 1000000 + b * 1618034)" by (simp only: of_int_0_less_iff)
    then have "(0::real) < of_int a + of_int b * (1618034 / 1000000)" by simp
    moreover from False phi_bounds(2) have "of_int b * (1618034 / 1000000) \<le> of_int b * phi"
      by (intro mult_left_mono_neg) simp_all
    ultimately show ?thesis by (simp add: z)
  qed
qed

lemma zvec_val_zvsub: "zvec_val (zvsub p q) = subtract (zvec_val p) (zvec_val q)"
proof -
  obtain a1 a2 a3 b1 b2 b3 where "p = (a1, a2, a3)" "q = (b1, b2, b3)"
    by (metis prod_cases3)
  then show ?thesis
    by (simp add: zvec_val_def subtract_def vec_def zval_zsub del: zval_simps zsub.simps)
qed

lemma zval_zdot: "zval (zdot p q) = dot (zvec_val p) (zvec_val q)"
proof -
  obtain a1 a2 a3 b1 b2 b3 where "p = (a1, a2, a3)" "q = (b1, b2, b3)"
    by (metis prod_cases3)
  then show ?thesis
    by (simp add: zvec_val_def dot_def vec_def zval_zadd zval_zmul
        del: zval_simps zadd.simps zmul.simps)
qed

lemma zvec_val_zcross: "zvec_val (zcross p q) = cross (zvec_val p) (zvec_val q)"
proof -
  obtain a1 a2 a3 b1 b2 b3 where "p = (a1, a2, a3)" "q = (b1, b2, b3)"
    by (metis prod_cases3)
  then show ?thesis
    by (simp add: zvec_val_def cross_def vec_def zval_zsub zval_zmul
        del: zval_simps zsub.simps zmul.simps)
qed

lemma baseVertices_PZ: "baseVertices = map zvec_val PZ"
  by (simp add: baseVertices_def PZ_def zvec_val_def invphi_eq)

lemma scaledVertices_PZ: "scaledVertices = map hv PZ"
  by (simp add: scaledVertices_def baseVertices_PZ hv_def)

lemma length_PZ: "length PZ = 20"
  by (simp add: PZ_def)

lemma length_NZ: "length NZ = 12"
  by (simp add: NZ_def)

subsection \<open>Soundness of the tests on a triple\<close>

lemma find_ex_iff: "find_ex P xs \<longleftrightarrow> (\<exists>x\<in>set xs. P x)"
  by (induction xs) auto

lemma find_all_iff: "find_all P xs \<longleftrightarrow> (\<forall>x\<in>set xs. P x)"
  by (induction xs) auto

lemma cross_scale: "cross (scale a s) (scale b t) = scale (cross a b) (s * t)"
  by (simp add: cross_def scale_def algebra_simps)

lemma subtract_scale: "subtract (scale a s) (scale b s) = scale (subtract a b) s"
  by (simp add: subtract_def scale_def algebra_simps)

lemma nth_scaledVertices: "i < 20 \<Longrightarrow> scaledVertices ! i = hv (PZ ! i)"
  by (simp add: scaledVertices_PZ length_PZ)

lemma set_scaledVertices: "set scaledVertices = hv ` set PZ"
  by (simp add: scaledVertices_PZ)

lemma tri_cross_scaled:
  assumes "i < 20" "j < 20" "k < 20"
  shows "tri_cross scaledVertices i j k = scale (zvec_val (ztri (PZ ! i) (PZ ! j) (PZ ! k))) (1 / 4)"
proof -
  have "tri_cross scaledVertices i j k =
      cross (subtract (hv (PZ ! j)) (hv (PZ ! i))) (subtract (hv (PZ ! k)) (hv (PZ ! i)))"
    using assms by (simp add: tri_cross_def nth_scaledVertices)
  also have "\<dots> = scale (cross (zvec_val (zvsub (PZ ! j) (PZ ! i))) (zvec_val (zvsub (PZ ! k) (PZ ! i))))
      (modelScale * modelScale)"
    by (simp only: hv_def subtract_scale cross_scale zvec_val_zvsub)
  also have "\<dots> = scale (zvec_val (ztri (PZ ! i) (PZ ! j) (PZ ! k))) (1 / 4)"
    by (simp add: ztri_def zvec_val_zcross modelScale_def)
  finally show ?thesis .
qed

lemma dot_hv: "dot (scale V (1 / 4)) (hv q) = dot V (zvec_val q) / 8"
  by (simp add: hv_def dot_scale_left dot_scale_right modelScale_def)

lemma dot_tri_diff:
  "dot (scale (zvec_val C) (1 / 4)) (hv q) - dot (scale (zvec_val C) (1 / 4)) (hv p0) =
     zval (zdot C (zvsub q p0)) / 8"
proof -
  have "dot (zvec_val C) (subtract (zvec_val q) (zvec_val p0)) =
      dot (zvec_val C) (zvec_val q) - dot (zvec_val C) (zvec_val p0)"
    by (simp add: dot_def subtract_def algebra_simps)
  then show ?thesis
    by (simp add: dot_hv zval_zdot zvec_val_zvsub diff_divide_distrib)
qed

lemma length_quarter: "length_v (scale (zvec_val C) (1 / 4)) = sqrt (zval (zdot C C)) / 4"
proof -
  have "length_v (scale (zvec_val C) (1 / 4)) = \<bar>1 / 4\<bar> * length_v (zvec_val C)"
    by (rule length_v_scale)
  also have "\<dots> = sqrt (zval (zdot C C)) / 4"
    by (simp add: length_v_def zval_zdot)
  finally show ?thesis .
qed

lemma zlen_ok_sound:
  assumes "zlen_ok C"
  shows "1 / 8 \<le> length_v (scale (zvec_val C) (1 / 4))" "length_v (scale (zvec_val C) (1 / 4)) \<le> 25"
proof -
  define X where "X = zval (zdot C C)"
  from assms have p1: "zpos (zsub (zmul (4, 0) (zdot C C)) (1, 0))" and p2: "zpos (zsub (10000, 0) (zdot C C))"
    by (simp_all add: zlen_ok_def split: if_splits)
  from zpos_sound [OF p1] have "1 / 4 < X"
    by (simp add: zval_zsub zval_zmul X_def del: zsub.simps zmul.simps)
  from zpos_sound [OF p2] have "X < 10000"
    by (simp add: zval_zsub X_def del: zsub.simps)
  have "(1 / 2)\<^sup>2 \<le> X" using \<open>1 / 4 < X\<close> by (simp add: power2_eq_square)
  then have "1 / 2 \<le> sqrt X" by (rule real_le_rsqrt)
  then show "1 / 8 \<le> length_v (scale (zvec_val C) (1 / 4))"
    by (simp add: length_quarter X_def)
  have "X \<le> 100\<^sup>2" using \<open>X < 10000\<close> by simp
  then have "sqrt X \<le> 100" by (intro real_le_lsqrt) simp_all
  then show "length_v (scale (zvec_val C) (1 / 4)) \<le> 25"
    by (simp add: length_quarter X_def)
qed

lemma zreject_sound:
  assumes ijk: "i < 20" "j < 20" "k < 20" and r: "zreject (PZ ! i) (PZ ! j) (PZ ! k)"
  shows "candidate scaledVertices i j k = None"
proof -
  define C where "C = ztri (PZ ! i) (PZ ! j) (PZ ! k)"
  define c where "c = scale (zvec_val C) (1 / 4)"
  have tc: "tri_cross scaledVertices i j k = c"
    unfolding c_def C_def by (rule tri_cross_scaled [OF ijk])
  from r have ok: "zlen_ok C" and ex1: "\<exists>q\<in>set PZ. zabove C (PZ ! i) q" and ex2: "\<exists>q\<in>set PZ. zbelow C (PZ ! i) q"
    by (simp_all add: zreject_def zsides_def C_def find_ex_iff split: if_splits)
  from zlen_ok_sound [OF ok] have L: "1 / 8 \<le> length_v c" "length_v c \<le> 25"
    by (simp_all add: c_def)
  have tl: "TOL * length_v c \<le> 1 / 40000"
  proof -
    have "TOL * length_v c \<le> TOL * 25" using L(2) TOL_pos by (intro mult_left_mono) simp_all
    then show ?thesis by (simp add: TOL_def)
  qed
  from ex1 obtain q1 where q1: "q1 \<in> set PZ" "zabove C (PZ ! i) q1" by blast
  from ex2 obtain q2 where q2: "q2 \<in> set PZ" "zbelow C (PZ ! i) q2" by blast
  have d1: "dot c (hv q1) - dot c (scaledVertices ! i) > TOL * length_v c"
  proof -
    from zpos_sound [OF q1(2) [unfolded zabove_def]]
    have "1 / 100 < zval (zdot C (zvsub q1 (PZ ! i)))"
      by (simp add: zval_zsub zval_zmul del: zsub.simps zmul.simps)
    then have "1 / 800 < dot c (hv q1) - dot c (hv (PZ ! i))"
      by (simp add: c_def dot_tri_diff)
    with tl show ?thesis by (simp add: nth_scaledVertices ijk)
  qed
  have d2: "dot c (hv q2) - dot c (scaledVertices ! i) < - (TOL * length_v c)"
  proof -
    from zpos_sound [OF q2(2) [unfolded zbelow_def]]
    have "zval (zdot C (zvsub q2 (PZ ! i))) < - (1 / 100)"
      by (simp add: zval_zsub zval_zmul del: zsub.simps zmul.simps)
    then have "dot c (hv q2) - dot c (hv (PZ ! i)) < - (1 / 800)"
      by (simp add: c_def dot_tri_diff)
    with tl show ?thesis by (simp add: nth_scaledVertices ijk)
  qed
  have TL: "TOL \<le> length_v (tri_cross scaledVertices i j k)"
    using L(1) by (simp add: tc TOL_def)
  have m1: "hv q1 \<in> set scaledVertices" using q1(1) by (simp add: set_scaledVertices)
  have m2: "hv q2 \<in> set scaledVertices" using q2(1) by (simp add: set_scaledVertices)
  show ?thesis
    by (rule candidate_reject [OF TL m1 _ m2]) (simp_all only: tc d1 d2)
qed

subsection \<open>The face planes\<close>

lemma cross_scale_left: "cross (scale a s) b = scale (cross a b) s"
  by (simp add: cross_def scale_def algebra_simps)

lemma scale_zero: "scale V 0 = vec 0 0 0"
  by (simp add: scale_def vec_def)

lemma length_v_zero: "length_v (vec 0 0 0) = 0"
  by (simp add: length_v_def dot_def vec_def)

lemma dot_face_hv: "dot (zvec_val N) (hv q) = zval (zdot N q) / 2"
  by (simp add: hv_def dot_scale_right zval_zdot modelScale_def)

lemma half_margin: "(x::real) < 1 + p - 1 / 1000 \<Longrightarrow> x / 2 < (1 + p) / 2 - 1 / 2000"
  by (simp add: field_simps)

lemma zle_sound: "zle a b \<Longrightarrow> zval a \<le> zval b"
proof (cases "a = b")
  case True
  then show ?thesis by simp
next
  case False
  assume "zle a b"
  with False have "zpos (zsub b a)" by (simp add: zle_def)
  from zpos_sound [OF this] show ?thesis by (simp add: zval_zsub del: zsub.simps)
qed

lemma zface_ok_dot: "zface_ok N \<Longrightarrow> dot (zvec_val N) (zvec_val N) = 2 + phi"
proof -
  assume "zface_ok N"
  then have "zdot N N = (2, 1)" by (simp add: zface_ok_def split: if_splits)
  then have "zval (zdot N N) = zval (2, 1)" by (rule arg_cong)
  then show ?thesis by (simp add: zval_zdot)
qed

lemma face_length:
  assumes "zface_ok N"
  shows "length_v (zvec_val N) = sqrt (2 + phi)" "0 < length_v (zvec_val N)" "length_v (zvec_val N) \<le> 2"
proof -
  show l: "length_v (zvec_val N) = sqrt (2 + phi)"
    by (simp add: length_v_def zface_ok_dot [OF assms])
  from phi_pos show "0 < length_v (zvec_val N)" by (simp add: l)
  have "2 + phi \<le> 2\<^sup>2" using phi_bounds(2) by simp
  then have "sqrt (2 + phi) \<le> 2" by (intro real_le_lsqrt) (use phi_pos in simp_all)
  then show "length_v (zvec_val N) \<le> 2" by (simp add: l)
qed

lemma face_inside:
  assumes "zface_ok N" "v \<in> set scaledVertices"
  shows "dot (zvec_val N) v \<le> (1 + phi) / 2"
proof -
  from assms(2) obtain q where q: "q \<in> set PZ" "v = hv q" by (auto simp: set_scaledVertices)
  from assms(1) q(1) have "zinside N q" by (simp add: zface_ok_def find_all_iff split: if_splits)
  then have "zval (zdot N q) \<le> zval (1, 1)" unfolding zinside_def by (rule zle_sound)
  then show ?thesis by (simp add: q(2) dot_face_hv)
qed

lemma face_deep:
  assumes "zface_ok N"
  shows "\<exists>w\<in>set scaledVertices. dot (zvec_val N) w < (1 + phi) / 2 - TOL * length_v (zvec_val N)"
proof -
  from assms have "\<exists>q\<in>set PZ. zdeep N q" by (simp add: zface_ok_def find_ex_iff split: if_splits)
  then obtain q where q: "q \<in> set PZ" "zdeep N q" by blast
  from zpos_sound [OF q(2) [unfolded zdeep_def]]
  have "zval (zdot N q) < 1 + phi - 1 / 1000"
    by (simp add: zval_zsub zval_zmul del: zsub.simps zmul.simps)
  then have "zval (zdot N q) / 2 < (1 + phi) / 2 - 1 / 2000"
    by (rule half_margin)
  then have d: "dot (zvec_val N) (hv q) < (1 + phi) / 2 - 1 / 2000"
    by (simp only: dot_face_hv)
  have "TOL * length_v (zvec_val N) \<le> TOL * 2"
    using face_length(3) [OF assms] TOL_pos by (intro mult_left_mono) simp_all
  then have "TOL * length_v (zvec_val N) \<le> 1 / 2000" by (simp add: TOL_def)
  with d have "dot (zvec_val N) (hv q) < (1 + phi) / 2 - TOL * length_v (zvec_val N)" by linarith
  moreover from q(1) have "hv q \<in> set scaledVertices" by (simp add: set_scaledVertices)
  ultimately show ?thesis by blast
qed

lemma zonface_sound:
  assumes ijk: "i < 20" "j < 20" "k < 20" and on: "zonface (PZ ! i) (PZ ! j) (PZ ! k) N"
    and fok: "zface_ok N"
  shows "candidate scaledVertices i j k = Some (face_plane N)"
proof -
  define C where "C = ztri (PZ ! i) (PZ ! j) (PZ ! k)"
  define c where "c = scale (zvec_val C) (1 / 4)"
  define lam where "lam = dot c (zvec_val N) / dot (zvec_val N) (zvec_val N)"
  have tc: "tri_cross scaledVertices i j k = c"
    unfolding c_def C_def by (rule tri_cross_scaled [OF ijk])
  from on have ok: "zlen_ok C" and par: "zcross C N = ((0, 0), (0, 0), (0, 0))"
    and d0: "zdot N (PZ ! i) = (1, 1)"
    by (simp_all add: zonface_def zparallel_def C_def split: if_splits)
  from zlen_ok_sound [OF ok] have L: "1 / 8 \<le> length_v c" by (simp add: c_def)
  have "zvec_val (zcross C N) = vec 0 0 0" by (simp add: par zvec_val_def)
  then have "scale (cross (zvec_val C) (zvec_val N)) (1 / 4) = scale (vec 0 0 0) (1 / 4)"
    by (simp only: zvec_val_zcross)
  then have cr: "cross c (zvec_val N) = vec 0 0 0"
    by (simp add: c_def cross_scale_left) (simp add: scale_def vec_def)
  have NN: "0 < dot (zvec_val N) (zvec_val N)"
    using phi_pos by (simp add: zface_ok_dot [OF fok])
  have cs: "c = scale (zvec_val N) lam"
    unfolding lam_def by (rule parallel_scale [OF cr NN])
  have lam: "lam \<noteq> 0"
  proof
    assume "lam = 0"
    with cs have "length_v c = 0" by (simp add: scale_zero length_v_zero)
    with L show False by simp
  qed
  have TL: "TOL \<le> length_v (tri_cross scaledVertices i j k)"
    using L by (simp add: tc TOL_def)
  have le: "\<forall>v\<in>set scaledVertices. dot (zvec_val N) v \<le> (1 + phi) / 2"
    using face_inside [OF fok] by blast
  have "zval (zdot N (PZ ! i)) = zval (1, 1)" by (simp only: d0)
  then have onp: "dot (zvec_val N) (scaledVertices ! i) = (1 + phi) / 2"
    by (simp add: nth_scaledVertices ijk dot_face_hv)
  from face_deep [OF fok] obtain w where w: "w \<in> set scaledVertices"
    "dot (zvec_val N) w < (1 + phi) / 2 - TOL * length_v (zvec_val N)" by blast
  have "candidate scaledVertices i j k =
      Some \<lparr>pn = scale (zvec_val N) (1 / length_v (zvec_val N)),
            pd = (1 + phi) / 2 / length_v (zvec_val N)\<rparr>"
    by (rule candidate_face [OF _ lam face_length(2) [OF fok] TL le onp w]) (simp add: tc cs)
  then show ?thesis by (simp add: face_plane_def)
qed

lemma face_unit: "zface_ok N \<Longrightarrow> length_v (pn (face_plane N)) = 1"
  using face_length(2) [of N] by (simp add: face_plane_def length_v_scale)

lemma face_halfspace:
  assumes "zface_ok N" "v \<in> set scaledVertices"
  shows "dot (pn (face_plane N)) v \<le> pd (face_plane N)"
proof -
  from face_length(2) [OF assms(1)] have "0 \<le> length_v (zvec_val N)" by simp
  with face_inside [OF assms]
  have "dot (zvec_val N) v / length_v (zvec_val N) \<le> (1 + phi) / 2 / length_v (zvec_val N)"
    by (rule divide_right_mono)
  then show ?thesis by (simp add: face_plane_def dot_scale_left)
qed

lemma face_dot:
  assumes "zface_ok N" "zface_ok M"
  shows "dot (pn (face_plane N)) (pn (face_plane M)) = zval (zdot N M) / (2 + phi)"
proof -
  have "sqrt (2 + phi) * sqrt (2 + phi) = 2 + phi" using phi_pos by simp
  then show ?thesis
    by (simp add: face_plane_def dot_scale_left dot_scale_right face_length(1) [OF assms(1)]
        face_length(1) [OF assms(2)] zval_zdot)
qed

lemma face_self_dup:
  assumes "zface_ok N"
  shows "is_dup (face_plane N) (pn (face_plane N)) (pd (face_plane N))"
proof -
  have "zval (zdot N N) / (2 + phi) = 1"
    using phi_pos by (simp add: zval_zdot zface_ok_dot [OF assms])
  then show ?thesis by (simp add: is_dup_def face_dot [OF assms assms])
qed

lemma face_far:
  assumes "zface_ok N" "zface_ok M" "zfar N M"
  shows "\<not> is_dup (face_plane N) (pn (face_plane M)) (pd (face_plane M))"
proof -
  from zpos_sound [OF assms(3) [unfolded zfar_def]]
  have "zval (zdot N M) < 1 + phi" by (simp add: zval_zsub del: zsub.simps)
  moreover have "0 < 2 + phi" using phi_pos by simp
  ultimately have "zval (zdot N M) / (2 + phi) < (1 + phi) / (2 + phi)"
    by (simp add: divide_strict_right_mono)
  also have "(1 + phi) / (2 + phi) = 1 - 1 / (2 + phi)"
    using phi_pos by (simp add: field_simps)
  also have "\<dots> \<le> 1 - 1 / 4"
  proof -
    have "1 / 4 \<le> 1 / (2 + phi)" using phi_bounds(2) phi_pos by (simp add: field_simps)
    then show ?thesis by simp
  qed
  finally have "zval (zdot N M) / (2 + phi) < 1 - 1 / 4" .
  then have "zval (zdot N M) / (2 + phi) - 1 < - (1 / 4)" by linarith
  moreover have "(1::real) / 10 ^ 3 < 1 / 4" by simp
  ultimately have "\<not> \<bar>zval (zdot N M) / (2 + phi) - 1\<bar> < 1 / 10 ^ 3" by linarith
  then show ?thesis by (simp add: is_dup_def face_dot [OF assms(1,2)])
qed

subsection \<open>The tests, evaluated\<close>

lemma zloop1_PZ: "zloop1 PZ"
  by code_simp

lemma zfaces_ok: "find_all zface_ok NZ"
  by code_simp

lemma zfaces_far: "zpairwise_far NZ"
  by code_simp

lemma zwitnesses: "find_all zwitness (zip face_triples NZ)"
  by code_simp

subsection \<open>From the tests to the loops of computeBasePlanes\<close>

lemma zloop3_iff: "zloop3 p0 p1 ps \<longleftrightarrow> (\<forall>p2\<in>set ps. zok p0 p1 p2)"
  by (induction ps) auto

lemma zloop2_nth:
  "zloop2 p0 ps \<Longrightarrow> j < k \<Longrightarrow> k < length ps \<Longrightarrow> zok p0 (ps ! j) (ps ! k)"
proof (induction ps arbitrary: j k)
  case Nil
  then show ?case by simp
next
  case (Cons p1 ps)
  from Cons.prems(1) have l3: "zloop3 p0 p1 ps" and l2: "zloop2 p0 ps"
    by (simp_all split: if_splits)
  from Cons.prems(2) obtain k' where k: "k = Suc k'" by (cases k) auto
  show ?case
  proof (cases j)
    case 0
    from Cons.prems(3) k have "ps ! k' \<in> set ps" by simp
    with l3 have "zok p0 p1 (ps ! k')" by (simp add: zloop3_iff)
    with 0 k show ?thesis by simp
  next
    case (Suc j')
    with Cons.prems k have "j' < k'" "k' < length ps" by simp_all
    from Cons.IH [OF l2 this] Suc k show ?thesis by simp
  qed
qed

lemma zloop1_nth:
  "zloop1 ps \<Longrightarrow> i < j \<Longrightarrow> j < k \<Longrightarrow> k < length ps \<Longrightarrow> zok (ps ! i) (ps ! j) (ps ! k)"
proof (induction ps arbitrary: i j k)
  case Nil
  then show ?case by simp
next
  case (Cons p0 ps)
  from Cons.prems(1) have l2: "zloop2 p0 ps" and l1: "zloop1 ps"
    by (simp_all split: if_splits)
  from Cons.prems(2) obtain j' where j: "j = Suc j'" by (cases j) auto
  from Cons.prems(3) obtain k' where k: "k = Suc k'" by (cases k) auto
  show ?case
  proof (cases i)
    case 0
    from Cons.prems j k have "j' < k'" "k' < length ps" by simp_all
    from zloop2_nth [OF l2 this] 0 j k show ?thesis by simp
  next
    case (Suc i')
    with Cons.prems j k have "i' < j'" "j' < k'" "k' < length ps" by simp_all
    from Cons.IH [OF l1 this] Suc j k show ?thesis by simp
  qed
qed

lemma zpairwise_far_nth:
  "zpairwise_far Ns \<Longrightarrow> a < b \<Longrightarrow> b < length Ns \<Longrightarrow> zfar (Ns ! a) (Ns ! b)"
proof (induction Ns arbitrary: a b)
  case Nil
  then show ?case by simp
next
  case (Cons N Ns)
  from Cons.prems(1) have far: "\<forall>M\<in>set Ns. zfar N M" and rest: "zpairwise_far Ns"
    by (simp_all add: find_all_iff split: if_splits)
  from Cons.prems(2) obtain b' where b: "b = Suc b'" by (cases b) auto
  show ?case
  proof (cases a)
    case 0
    from Cons.prems(3) b have "Ns ! b' \<in> set Ns" by simp
    with far 0 b show ?thesis by simp
  next
    case (Suc a')
    with Cons.prems b have "a' < b'" "b' < length Ns" by simp_all
    from Cons.IH [OF rest this] Suc b show ?thesis by simp
  qed
qed

lemma for_each_collect:
  assumes "I s"
    and step: "\<And>x t. x \<in> set xs \<Longrightarrow> I t \<Longrightarrow> \<exists>t'. body x t = Inr t' \<and> I t' \<and> A t \<subseteq> A t' \<and> Q x t'"
    and mono: "\<And>x t t'. Q x t \<Longrightarrow> A t \<subseteq> A t' \<Longrightarrow> Q x t'"
  shows "\<exists>s'. for_each xs body s = Inr s' \<and> I s' \<and> A s \<subseteq> A s' \<and> (\<forall>x\<in>set xs. Q x s')"
  using assms(1,2)
proof (induction xs arbitrary: s)
  case Nil
  then show ?case by simp
next
  case (Cons x xs)
  from Cons.prems(2) [of x s] Cons.prems(1) obtain t where
    t: "body x s = Inr t" "I t" "A s \<subseteq> A t" "Q x t" by auto
  have "\<exists>s'. for_each xs body t = Inr s' \<and> I s' \<and> A t \<subseteq> A s' \<and> (\<forall>x\<in>set xs. Q x s')"
    by (rule Cons.IH [OF t(2)]) (use Cons.prems(2) in auto)
  then obtain s' where s': "for_each xs body t = Inr s'" "I s'" "A t \<subseteq> A s'" "\<forall>x\<in>set xs. Q x s'"
    by blast
  from mono [OF t(4) s'(3)] have "Q x s'" .
  with t s' show ?case by auto
qed

lemma accepted_nth: "face_inv F planes0 (count, planes) \<Longrightarrow>
    accepted (count, planes) = {planes ! n | n. n < nat count}"
proof -
  assume "face_inv F planes0 (count, planes)"
  then have "nat count \<le> length planes" by (simp add: face_inv_def)
  then have "set (take (nat count) planes) = (!) planes ` {0..<nat count}"
    by (rule nth_image [symmetric])
  then have "set (take (nat count) planes) = {planes ! n | n. n < nat count}"
    by auto
  then show ?thesis by (simp add: accepted_def)
qed

lemma accept_face:
  assumes dup: "\<And>f g. f \<in> set F \<Longrightarrow> g \<in> set F \<Longrightarrow> is_dup f (pn g) (pd g) \<longleftrightarrow> f = g"
    and cap: "int (card (set F)) \<le> maxPlanes" "maxPlanes \<le> int (length planes0)"
    and c: "c \<in> set F" and inv: "face_inv F planes0 st"
  shows "\<exists>st'. accept maxPlanes c st = Inr st' \<and> face_inv F planes0 st' \<and>
           accepted st \<subseteq> accepted st' \<and> c \<in> accepted st'"
proof -
  obtain count planes where st: "st = (count, planes)" by (cases st)
  define acc where "acc = take (nat count) planes"
  from inv have I: "0 \<le> count" "nat count \<le> length planes" "length planes = length planes0"
    "distinct acc" "set acc \<subseteq> set F"
    by (simp_all add: face_inv_def st accepted_def acc_def)
  have A: "accepted st = set acc" by (simp add: accepted_def st acc_def)
  have set_acc: "set acc = {planes ! n | n. n < nat count}"
    using accepted_nth [OF inv [unfolded st]] by (simp add: accepted_def acc_def)
  have dl: "dup_loop planes count 0 (pn c) (pd c) \<longleftrightarrow> c \<in> set acc"
  proof
    assume "dup_loop planes count 0 (pn c) (pd c)"
    then obtain q where q: "0 \<le> q" "q < count" "is_dup (planes ! nat q) (pn c) (pd c)"
      by (auto simp: dup_loop_iff)
    then have "nat q < nat count" by simp
    then have m: "planes ! nat q \<in> set acc" unfolding set_acc by blast
    with I(5) have "planes ! nat q \<in> set F" by blast
    from dup [OF this c] q(3) have "planes ! nat q = c" by simp
    with m show "c \<in> set acc" by simp
  next
    assume "c \<in> set acc"
    then obtain n where n: "n < nat count" "planes ! n = c" unfolding set_acc by auto
    from dup [OF c c] have "is_dup c (pn c) (pd c)" by simp
    with n have "0 \<le> int n \<and> int n < count \<and> is_dup (planes ! nat (int n)) (pn c) (pd c)"
      by simp
    then show "dup_loop planes count 0 (pn c) (pd c)"
      unfolding dup_loop_iff by blast
  qed
  show ?thesis
  proof (cases "c \<in> set acc")
    case True
    then have "accept maxPlanes c st = Inr st"
      by (simp add: accept_def st Let_def dl)
    with inv True A show ?thesis by simp
  next
    case False
    have "card (set acc) < card (set F)"
    proof (rule psubset_card_mono)
      show "finite (set F)" by simp
      from I(5) False c show "set acc \<subset> set F" by blast
    qed
    moreover have "card (set acc) = nat count"
      using I(2,4) by (simp add: distinct_card acc_def)
    ultimately have "count < int (card (set F))" using I(1) by linarith
    with cap have lt: "count < maxPlanes" and inb: "nat count < length planes"
      using I(1,3) by linarith+
    let ?planes' = "planes[nat count := \<lparr>pn = pn c, pd = pd c\<rparr>]"
    have acc': "accept maxPlanes c st = Inr (count + 1, ?planes')"
      using False lt inb I(1) by (simp add: accept_def st Let_def dl)
    have "take (nat (count + 1)) ?planes' = acc @ [c]"
    proof -
      have "nat (count + 1) = Suc (nat count)" using I(1) by simp
      moreover have "take (Suc (nat count)) ?planes' = take (nat count) ?planes' @ [?planes' ! nat count]"
        using inb by (simp add: take_Suc_conv_app_nth)
      ultimately show ?thesis using inb by (simp add: acc_def)
    qed
    then have "face_inv F planes0 (count + 1, ?planes')" "accepted (count + 1, ?planes') = set acc \<union> {c}"
      using I False c inb by (simp_all add: face_inv_def accepted_def)
    with acc' A show ?thesis by auto
  qed
qed

lemma triple_face:
  assumes dup: "\<And>f g. f \<in> set F \<Longrightarrow> g \<in> set F \<Longrightarrow> is_dup f (pn g) (pd g) \<longleftrightarrow> f = g"
    and cap: "int (card (set F)) \<le> maxPlanes" "maxPlanes \<le> int (length planes0)"
    and cand: "candidate vs i j k = None \<or> (\<exists>f\<in>set F. candidate vs i j k = Some f)"
    and inv: "face_inv F planes0 st"
  shows "\<exists>st'. triple_body vs maxPlanes i j k st = Inr st' \<and> face_inv F planes0 st' \<and>
           accepted st \<subseteq> accepted st' \<and> (\<forall>f. candidate vs i j k = Some f \<longrightarrow> f \<in> accepted st')"
proof (cases "candidate vs i j k")
  case None
  with inv show ?thesis by (simp add: triple_body_def)
next
  case (Some c)
  with cand have "c \<in> set F" by auto
  from accept_face [OF dup cap this inv] Some show ?thesis
    by (simp add: triple_body_def)
qed

lemma extract_faces:
  assumes dup: "\<And>f g. f \<in> set F \<Longrightarrow> g \<in> set F \<Longrightarrow> is_dup f (pn g) (pd g) \<longleftrightarrow> f = g"
    and cap: "int (card (set F)) \<le> maxPlanes" "maxPlanes \<le> int (length planes)"
    and cand: "\<And>i j k. i < j \<Longrightarrow> j < k \<Longrightarrow> k < length vs \<Longrightarrow>
        candidate vs i j k = None \<or> (\<exists>f\<in>set F. candidate vs i j k = Some f)"
  shows "\<exists>st'. computeBasePlanes vs planes maxPlanes = Inr st' \<and> face_inv F planes st' \<and>
    (\<forall>i j k f. i < j \<and> j < k \<and> k < length vs \<and> candidate vs i j k = Some f \<longrightarrow> f \<in> accepted st')"
proof -
  let ?n = "length vs"
  let ?Qk = "\<lambda>i j k t. \<forall>f. candidate vs i j k = Some f \<longrightarrow> f \<in> accepted t"
  let ?Qj = "\<lambda>i j t. \<forall>k\<in>set [j + 1..<?n]. ?Qk i j k t"
  let ?Qi = "\<lambda>i t. \<forall>j\<in>set [i + 1..<?n]. ?Qj i j t"
  have init: "face_inv F planes (0, planes)"
    by (simp add: face_inv_def accepted_def)
  have kloop: "\<exists>t'. for_each [j + 1..<?n] (\<lambda>k. triple_body vs maxPlanes i j k) t = Inr t' \<and>
      face_inv F planes t' \<and> accepted t \<subseteq> accepted t' \<and> ?Qj i j t'"
    if "i < j" "face_inv F planes t" for i j t
  proof (rule for_each_collect [where Q = "?Qk i j"], goal_cases)
    case 1
    show ?case by (rule that(2))
  next
    case (2 k u)
    then have "j < k" "k < ?n" by simp_all
    from triple_face [OF dup cap cand [OF that(1) this] 2(2)] show ?case .
  next
    case (3 k u u')
    then show ?case by blast
  qed
  have jloop: "\<exists>t'. for_each [i + 1..<?n] (\<lambda>j. for_each [j + 1..<?n] (\<lambda>k. triple_body vs maxPlanes i j k)) t = Inr t' \<and>
      face_inv F planes t' \<and> accepted t \<subseteq> accepted t' \<and> ?Qi i t'"
    if "face_inv F planes t" for i t
  proof (rule for_each_collect [where Q = "?Qj i"], goal_cases)
    case 1
    show ?case by (rule that)
  next
    case (2 j u)
    then have "i < j" by simp
    from kloop [OF this 2(2)] show ?case .
  next
    case (3 j u u')
    then show ?case by blast
  qed
  have "\<exists>t'. for_each [0..<?n] (\<lambda>i. for_each [i + 1..<?n] (\<lambda>j. for_each [j + 1..<?n]
        (\<lambda>k. triple_body vs maxPlanes i j k))) (0, planes) = Inr t' \<and>
      face_inv F planes t' \<and> accepted (0, planes) \<subseteq> accepted t' \<and> (\<forall>i\<in>set [0..<?n]. ?Qi i t')"
  proof (rule for_each_collect [where Q = ?Qi], goal_cases)
    case 1
    show ?case by (rule init)
  next
    case (2 i u)
    from jloop [OF 2(2)] show ?case .
  next
    case (3 i u u')
    then show ?case by blast
  qed
  then obtain t' where t': "computeBasePlanes vs planes maxPlanes = Inr t'" "face_inv F planes t'"
    "\<forall>i\<in>set [0..<?n]. ?Qi i t'"
    by (auto simp: computeBasePlanes_def Let_def)
  have "f \<in> accepted t'" if "i < j \<and> j < k \<and> k < ?n \<and> candidate vs i j k = Some f" for i j k f
  proof -
    from that have "i \<in> set [0..<?n]" "j \<in> set [i + 1..<?n]" "k \<in> set [j + 1..<?n]" by simp_all
    with t'(3) that show ?thesis by blast
  qed
  with t'(1,2) show ?thesis by blast
qed

subsection \<open>The twelve faces of the dodecahedron\<close>

lemma NZ_ok: "N \<in> set NZ \<Longrightarrow> zface_ok N"
  using zfaces_ok by (simp add: find_all_iff)

lemma length_faces: "length faces = 12"
  by (simp add: faces_def length_NZ)

lemma faces_nth: "a < 12 \<Longrightarrow> faces ! a = face_plane (NZ ! a)"
  by (simp add: faces_def length_NZ)

lemma faces_dup_nth:
  assumes "a < 12" "b < 12"
  shows "is_dup (faces ! a) (pn (faces ! b)) (pd (faces ! b)) \<longleftrightarrow> a = b"
proof -
  have oka: "zface_ok (NZ ! a)" and okb: "zface_ok (NZ ! b)"
    using assms by (simp_all add: NZ_ok length_NZ)
  have far: "\<not> is_dup (faces ! x) (pn (faces ! y)) (pd (faces ! y))" if "x < y" "y < 12" for x y
  proof -
    from that have "zfar (NZ ! x) (NZ ! y)"
      by (intro zpairwise_far_nth [OF zfaces_far]) (simp_all add: length_NZ)
    moreover from that have "zface_ok (NZ ! x)" "zface_ok (NZ ! y)"
      by (simp_all add: NZ_ok length_NZ)
    ultimately have "\<not> is_dup (face_plane (NZ ! x)) (pn (face_plane (NZ ! y))) (pd (face_plane (NZ ! y)))"
      by (intro face_far)
    with that show ?thesis by (simp add: faces_nth)
  qed
  show ?thesis
  proof (cases "a = b")
    case True
    with face_self_dup [OF oka] assms show ?thesis by (simp add: faces_nth)
  next
    case False
    then consider "a < b" | "b < a" by linarith
    then have "\<not> is_dup (faces ! a) (pn (faces ! b)) (pd (faces ! b))"
    proof cases
      case 1
      from far [OF 1 assms(2)] show ?thesis .
    next
      case 2
      from far [OF 2 assms(1)] show ?thesis by (simp add: is_dup_sym)
    qed
    with False show ?thesis by simp
  qed
qed

lemma distinct_faces: "distinct faces"
proof -
  have "faces ! a \<noteq> faces ! b" if "a < 12" "b < 12" "a \<noteq> b" for a b
  proof
    assume eq: "faces ! a = faces ! b"
    from faces_dup_nth [OF that(2) that(2)] have "is_dup (faces ! b) (pn (faces ! b)) (pd (faces ! b))"
      by simp
    with eq have "is_dup (faces ! a) (pn (faces ! b)) (pd (faces ! b))" by simp
    with faces_dup_nth [OF that(1,2)] that(3) show False by simp
  qed
  then show ?thesis by (simp add: distinct_conv_nth length_faces)
qed

lemma card_faces: "card (set faces) = 12"
  using distinct_faces by (simp add: distinct_card length_faces)

lemma faces_dup:
  assumes "f \<in> set faces" "g \<in> set faces"
  shows "is_dup f (pn g) (pd g) \<longleftrightarrow> f = g"
proof -
  from assms obtain a b where ab: "a < 12" "f = faces ! a" "b < 12" "g = faces ! b"
    by (auto simp: in_set_conv_nth length_faces)
  have "faces ! a = faces ! b \<longleftrightarrow> a = b"
    using distinct_faces ab(1,3) by (simp add: nth_eq_iff_index_eq length_faces)
  with faces_dup_nth [OF ab(1,3)] ab show ?thesis by simp
qed

lemma face_plane_mem: "N \<in> set NZ \<Longrightarrow> face_plane N \<in> set faces"
  by (simp add: faces_def)

lemma classify:
  assumes "i < j" "j < k" "k < length scaledVertices"
  shows "candidate scaledVertices i j k = None \<or>
         (\<exists>f\<in>set faces. candidate scaledVertices i j k = Some f)"
proof -
  from assms have k: "k < 20" by (simp add: scaledVertices_PZ length_PZ)
  with assms have ijk: "i < 20" "j < 20" "k < 20" by simp_all
  from k have "k < length PZ" by (simp add: length_PZ)
  from zloop1_nth [OF zloop1_PZ assms(1,2) this] have ok: "zok (PZ ! i) (PZ ! j) (PZ ! k)" .
  show ?thesis
  proof (cases "zreject (PZ ! i) (PZ ! j) (PZ ! k)")
    case True
    from zreject_sound [OF ijk True] show ?thesis by simp
  next
    case False
    with ok obtain N where N: "N \<in> set NZ" "zonface (PZ ! i) (PZ ! j) (PZ ! k) N"
      by (auto simp: zok_def find_ex_iff)
    from zonface_sound [OF ijk N(2) NZ_ok [OF N(1)]] face_plane_mem [OF N(1)]
    show ?thesis by blast
  qed
qed

lemma cover:
  assumes "f \<in> set faces"
  shows "\<exists>i j k. i < j \<and> j < k \<and> k < length scaledVertices \<and> candidate scaledVertices i j k = Some f"
proof -
  from assms obtain a where a: "a < 12" "f = face_plane (NZ ! a)"
    by (auto simp: in_set_conv_nth length_faces faces_nth)
  have len: "length face_triples = 12" by (simp add: face_triples_def)
  from a(1) have "zip face_triples NZ ! a \<in> set (zip face_triples NZ)"
    by (intro nth_mem) (simp add: len length_NZ)
  with zwitnesses have "zwitness (zip face_triples NZ ! a)" by (simp add: find_all_iff)
  with a(1) have w: "zwitness (face_triples ! a, NZ ! a)" by (simp add: len length_NZ)
  obtain i j k where t: "face_triples ! a = (i, j, k)" by (cases "face_triples ! a")
  from w t have ijk: "i < j" "j < k" "k < 20" and on: "zonface (PZ ! i) (PZ ! j) (PZ ! k) (NZ ! a)"
    by (simp_all add: zwitness_def split: if_splits)
  from ijk have lt: "i < 20" "j < 20" by simp_all
  from a(1) have "NZ ! a \<in> set NZ" by (simp add: length_NZ)
  from zonface_sound [OF lt ijk(3) on NZ_ok [OF this]]
  have "candidate scaledVertices i j k = Some f" by (simp add: a(2))
  with ijk show ?thesis by (auto simp: scaledVertices_PZ length_PZ)
qed

lemma faces_geometry:
  assumes "f \<in> set faces"
  shows "length_v (pn f) = 1" "\<forall>p\<in>set scaledVertices. dot (pn f) p \<le> pd f"
proof -
  from assms obtain N where N: "N \<in> set NZ" "f = face_plane N" by (auto simp: faces_def)
  from face_unit [OF NZ_ok [OF N(1)]] show "length_v (pn f) = 1" by (simp add: N(2))
  from face_halfspace [OF NZ_ok [OF N(1)]] show "\<forall>p\<in>set scaledVertices. dot (pn f) p \<le> pd f"
    by (simp add: N(2))
qed

section \<open>The claims\<close>

text \<open>
  Claim C8. When the length of \<open>v\<close> is below the tolerance \<^verbatim>\<open>TOL\<close> = \<open>1e-6\<close>, \<^verbatim>\<open>normalize\<close> takes
  the early return of line 53: the result is \<open>v\<close> itself, no division is made, and the
  result is an ordinary value, not an error.
\<close>

theorem normalize_v_degenerate: "length_v v < TOL \<Longrightarrow> normalize_v v = v"
  by (simp add: normalize_v_def)

theorem normalize_v_degenerate_witness:
  "length_v (vec (1 / 10 ^ 7) 0 0) < TOL \<and> normalize_v (vec (1 / 10 ^ 7) 0 0) = vec (1 / 10 ^ 7) 0 0"
proof -
  have h: "length_v (vec (1 / 10 ^ 7) 0 0) < TOL"
    unfolding tiny_length TOL_def by simp
  from h normalize_v_degenerate [OF h] show ?thesis by simp
qed

text \<open>
  Claim C5. The rotated plane set of a frame has as many planes as the base plane set (both
  are the first \<^verbatim>\<open>numPlanes\<close> entries of their arrays); the normal of rotated plane \<open>i\<close> is
  \<^verbatim>\<open>rotate\<close> of base normal \<open>i\<close> at the frame's angle, and its offset is the base offset.
\<close>

theorem rotated_planes_frame:
  assumes "nat numPlanes \<le> length basePlanes" and "nat numPlanes \<le> length rotatedPlanes"
  shows "length (take (nat numPlanes)
            (rotate_planes basePlanes numPlanes (frame_angle currentTime) rotatedPlanes)) =
         length (take (nat numPlanes) basePlanes) \<and>
    (\<forall>i < nat numPlanes.
       pn (rotate_planes basePlanes numPlanes (frame_angle currentTime) rotatedPlanes ! i) =
         rotate_v (pn (basePlanes ! i)) (frame_angle currentTime) \<and>
       pd (rotate_planes basePlanes numPlanes (frame_angle currentTime) rotatedPlanes ! i) =
         pd (basePlanes ! i))"
  using assms by (simp add: rotate_planes_length rotate_planes_nth)

theorem rotated_planes_frame_witness:
  "nat 1 \<le> length [\<lparr>pn = vec 1 0 0, pd = 3\<rparr>] \<and> nat 1 \<le> length [\<lparr>pn = vec 0 0 0, pd = 0\<rparr>] \<and>
   length (take (nat 1) (rotate_planes [\<lparr>pn = vec 1 0 0, pd = 3\<rparr>] 1 (frame_angle 0) [\<lparr>pn = vec 0 0 0, pd = 0\<rparr>])) = 1 \<and>
   rotate_planes [\<lparr>pn = vec 1 0 0, pd = 3\<rparr>] 1 (frame_angle 0) [\<lparr>pn = vec 0 0 0, pd = 0\<rparr>] ! 0 =
     \<lparr>pn = vec 1 0 0, pd = 3\<rparr>"
proof -
  have h1: "nat 1 \<le> length [\<lparr>pn = vec 1 0 0, pd = 3\<rparr>]" by simp
  have h2: "nat 1 \<le> length [\<lparr>pn = vec 0 0 0, pd = 0\<rparr>]" by simp
  have r: "rotate_v (vec 1 0 0) (frame_angle 0) = vec 1 0 0"
    by (simp add: rotate_v_def frame_angle_def vec_def)
  from rotated_planes_frame [OF h1 h2, of 0] r show ?thesis
    by (simp add: Plane.equality)
qed

text \<open>
  Claim C2. After the slab loop over the planes, for every ray and every plane set: if
  \<open>tNear > tFar\<close> or \<open>tFar < 0\<close> the pixel gets the background colour; otherwise the hit
  parameter is \<open>tNear\<close> when \<open>tNear \<ge> 0\<close> and \<open>tFar\<close> otherwise, and the shading normal is
  the normal of the recorded entering plane when one was recorded (the index is then that of
  an entering plane among the first \<^verbatim>\<open>numPlanes\<close>, and \<open>tNear\<close> its crossing parameter), and
  the fallback normal \<open>(0, 0, 1)\<close> otherwise.
\<close>

theorem pixel_after_slab_loop:
  "after_loop rotatedPlanes (slab_loop rotatedPlanes numPlanes rd) =
     (let s = slab_loop rotatedPlanes numPlanes rd
      in if tNear s > tFar s \<or> tFar s < 0 then Miss
         else Hit (if tNear s \<ge> 0 then tNear s else tFar s)
                  (if activePlaneIndex s \<ge> 0 then pn (rotatedPlanes ! nat (activePlaneIndex s))
                   else vec 0 0 1)) \<and>
   pixel rotatedPlanes numPlanes x y =
     (let s = slab_loop rotatedPlanes numPlanes (rayDir x y)
      in if tNear s > tFar s \<or> tFar s < 0 then Inr background
         else shade (if activePlaneIndex s \<ge> 0 then pn (rotatedPlanes ! nat (activePlaneIndex s))
                     else vec 0 0 1)) \<and>
   slab_inv rotatedPlanes rd (nat numPlanes) (slab_loop rotatedPlanes numPlanes rd)"
  by (simp add: after_loop_def pixel_def Let_def slab_loop_inv)

theorem pixel_after_slab_loop_witness:
  "after_loop [\<lparr>pn = vec 0 0 1, pd = - 10\<rparr>]
     (slab_loop [\<lparr>pn = vec 0 0 1, pd = - 10\<rparr>] 1 (rayDir 400 300)) = Miss \<and>
   pixel [\<lparr>pn = vec 0 0 1, pd = - 10\<rparr>] 1 400 300 = Inr background \<and>
   after_loop [\<lparr>pn = vec 0 0 (- 1), pd = 1\<rparr>]
     (slab_loop [\<lparr>pn = vec 0 0 (- 1), pd = 1\<rparr>] 1 (rayDir 400 300)) = Hit 4 (vec 0 0 (- 1)) \<and>
   pixel [\<lparr>pn = vec 0 0 (- 1), pd = 1\<rparr>] 1 400 300 = shade (vec 0 0 (- 1))"
  using pixel_after_slab_loop [of "[\<lparr>pn = vec 0 0 1, pd = - 10\<rparr>]" 1 "rayDir 400 300" 400 300]
    pixel_after_slab_loop [of "[\<lparr>pn = vec 0 0 (- 1), pd = 1\<rparr>]" 1 "rayDir 400 300" 400 300]
    slab_miss_example slab_hit_example
  by (simp add: Let_def)

text \<open>
  Claim C3. The 8-bit intensity computed from \<open>diff = max 0 (dot normal lightDir)\<close> is
  non-decreasing in \<open>dot normal lightDir\<close>, lies between 0 and 255, and is 0 for a normal
  anti-parallel to the light. The conversion \<^verbatim>\<open>(int)(diff * 255)\<close> is defined as long as
  \<open>diff * 255\<close> fits a 32-bit \<^verbatim>\<open>int\<close>, which is the hypothesis on the larger of the two dot
  products; by \<open>intensity_defined\<close> it is defined for every normal of length at most 1.
\<close>

theorem intensity_monotone_clamped:
  assumes "dot n1 lightDir \<le> dot n2 lightDir" and "dot n2 lightDir * 255 < 2 ^ 31" and "0 < k"
  shows "\<exists>c1 c2. intensity (dot n1 lightDir) = Inr c1 \<and> intensity (dot n2 lightDir) = Inr c2 \<and>
           c1 \<le> c2 \<and> 0 \<le> c1 \<and> c2 \<le> 255 \<and>
           intensity (dot (scale lightDir (- k)) lightDir) = Inr 0"
proof -
  from assms(2) have "max 0 (dot n2 lightDir) * 255 < 2 ^ 31" by (simp add: max_def)
  then obtain c2 where c2: "intensity (dot n2 lightDir) = Inr c2" by (simp add: intensity_eq)
  from intensity_mono [OF assms(1) c2] obtain c1 where c1: "intensity (dot n1 lightDir) = Inr c1" "c1 \<le> c2"
    by blast
  from intensity_range [OF c1(1)] intensity_range [OF c2] c1 c2 intensity_antiparallel [OF assms(3)]
  show ?thesis by blast
qed

theorem intensity_monotone_clamped_witness:
  "dot (scale lightDir (- 1)) lightDir \<le> dot lightDir lightDir \<and> dot lightDir lightDir * 255 < 2 ^ 31 \<and>
   (0::real) < 1 \<and>
   intensity (dot (scale lightDir (- 1)) lightDir) = Inr 0 \<and> intensity (dot lightDir lightDir) = Inr 255"
proof -
  have h1: "dot (scale lightDir (- 1)) lightDir \<le> dot lightDir lightDir"
    by (simp add: dot_scale_left dot_lightDir_self)
  have h2: "dot lightDir lightDir * 255 < 2 ^ 31" by (simp add: dot_lightDir_self)
  have h3: "(0::real) < 1" by simp
  from intensity_monotone_clamped [OF h1 h2 h3] obtain c1 c2 where
    "intensity (dot (scale lightDir (- 1)) lightDir) = Inr c1" "intensity (dot lightDir lightDir) = Inr c2"
    "c1 \<le> c2" "0 \<le> c1" "c2 \<le> 255" "intensity (dot (scale lightDir (- 1)) lightDir) = Inr 0"
    by blast
  moreover have "intensity (dot lightDir lightDir) = Inr 255"
    by (simp add: dot_lightDir_self intensity_eq)
  ultimately show ?thesis using h1 h2 by simp
qed

text \<open>
  Claim C6, as amended. At the start of a pixel's slab pass \<open>tNear\<close> is \<open>-1e9\<close>, \<open>tFar\<close> is
  \<open>1e9\<close> and the recorded plane index is \<open>-1\<close> (none): before any plane contributes, the
  interval is the bounded interval of the parameters \<open>t\<close> with \<open>\<bar>t\<bar> < 1e9\<close>.
\<close>

theorem slab_init_sentinels:
  "slab_loop rotatedPlanes 0 rd = slab_init \<and>
   tNear slab_init = - (10 ^ 9) \<and> tFar slab_init = 10 ^ 9 \<and> activePlaneIndex slab_init = - 1 \<and>
   (\<forall>t. (tNear slab_init < t \<and> t < tFar slab_init) = (\<bar>t\<bar> < 10 ^ 9))"
  by (auto simp: slab_loop_0 slab_init_def)

text \<open>
  The interval of claim C6 is not unbounded: \<open>-2e9\<close> is not above the initial \<open>tNear\<close>,
  \<open>2e9\<close> is not below the initial \<open>tFar\<close>, and an entering plane that the central ray
  crosses at \<open>t = 5 - 3e9\<close> leaves the state as it was initialised.
\<close>

theorem slab_init_unbounded_counterexample:
  "\<not> tNear slab_init < - (2 * 10 ^ 9) \<and> \<not> 2 * 10 ^ 9 < tFar slab_init \<and>
   slab_loop [\<lparr>pn = vec 0 0 (- 1), pd = 3 * 10 ^ 9\<rparr>] 1 (rayDir 400 300) = slab_init"
  using far_plane_ignored by (simp add: slab_init_def)

text \<open>
  Claim C10. With zero planes the slab loop leaves \<open>tNear\<close> and \<open>tFar\<close> at their initial
  values, the miss test fails, and every pixel is shaded as a hit with the fallback normal
  \<open>(0, 0, 1)\<close>, which gives black; the background colour is not emitted.
\<close>

theorem empty_plane_set_hits:
  "slab_loop rotatedPlanes 0 (rayDir x y) = slab_init \<and>
   tNear slab_init \<le> tFar slab_init \<and> 0 \<le> tFar slab_init \<and>
   after_loop rotatedPlanes (slab_loop rotatedPlanes 0 (rayDir x y)) = Hit (10 ^ 9) (vec 0 0 1) \<and>
   pixel rotatedPlanes 0 x y = shade (vec 0 0 1) \<and>
   pixel rotatedPlanes 0 x y = Inr 0 \<and>
   pixel rotatedPlanes 0 x y \<noteq> Inr background"
  using empty_pixel [of rotatedPlanes x y] bg_ne
  by (simp add: slab_loop_0 shade_fallback) (simp add: slab_init_def)

text \<open>
  Claim C4. For every point set, no two distinct planes returned by \<^verbatim>\<open>computeBasePlanes\<close>
  are duplicates under the test of line 108: for planes at two different indices below the
  returned count it is not the case that the dot product of the normals is within \<open>1e-3\<close>
  of 1 while the offsets differ by less than \<open>1e-3\<close>. The array \<^verbatim>\<open>planes\<close> has room for
  \<^verbatim>\<open>maxPlanes\<close> planes.
\<close>

theorem computeBasePlanes_no_duplicates:
  assumes "maxPlanes \<le> int (length planes)"
  shows "\<exists>count planes'. computeBasePlanes vertices planes maxPlanes = Inr (count, planes') \<and>
    (\<forall>p q. p < nat count \<and> q < nat count \<and> p \<noteq> q \<longrightarrow>
       \<not> (\<bar>dot (pn (planes' ! p)) (pn (planes' ! q)) - 1\<bar> < 1 / 10 ^ 3 \<and>
          \<bar>pd (planes' ! p) - pd (planes' ! q)\<bar> < 1 / 10 ^ 3))"
proof -
  from computeBasePlanes_inv [OF assms] obtain count planes' where
    r: "computeBasePlanes vertices planes maxPlanes = Inr (count, planes')"
    and inv: "ext_inv maxPlanes planes (count, planes')"
    by (metis surj_pair)
  from inv have nd: "no_dups count planes'" by (simp add: ext_inv_def)
  have "\<not> (\<bar>dot (pn (planes' ! p)) (pn (planes' ! q)) - 1\<bar> < 1 / 10 ^ 3 \<and>
          \<bar>pd (planes' ! p) - pd (planes' ! q)\<bar> < 1 / 10 ^ 3)"
    if "p < nat count \<and> q < nat count \<and> p \<noteq> q" for p q
  proof (cases "p < q")
    case True
    with that nd have "\<not> is_dup (planes' ! p) (pn (planes' ! q)) (pd (planes' ! q))"
      by (simp add: no_dups_def)
    then show ?thesis by (simp add: is_dup_def)
  next
    case False
    with that have "q < p" by simp
    with that nd have "\<not> is_dup (planes' ! q) (pn (planes' ! p)) (pd (planes' ! p))"
      by (simp add: no_dups_def)
    then have "\<not> is_dup (planes' ! p) (pn (planes' ! q)) (pd (planes' ! q))"
      by (simp add: is_dup_sym)
    then show ?thesis by (simp add: is_dup_def)
  qed
  with r show ?thesis by blast
qed

theorem computeBasePlanes_no_duplicates_witness:
  "3 \<le> int (length [blank, blank, blank]) \<and>
   computeBasePlanes square [blank, blank, blank] 3 = Inr (2, [down, up, blank]) \<and>
   \<not> (\<bar>dot (pn down) (pn up) - 1\<bar> < 1 / 10 ^ 3 \<and> \<bar>pd down - pd up\<bar> < 1 / 10 ^ 3)"
proof -
  have h: "3 \<le> int (length [blank, blank, blank])" by simp
  from computeBasePlanes_no_duplicates [OF h, of square] obtain count planes' where
    r: "computeBasePlanes square [blank, blank, blank] 3 = Inr (count, planes')"
    and nd: "\<forall>p q. p < nat count \<and> q < nat count \<and> p \<noteq> q \<longrightarrow>
       \<not> (\<bar>dot (pn (planes' ! p)) (pn (planes' ! q)) - 1\<bar> < 1 / 10 ^ 3 \<and>
          \<bar>pd (planes' ! p) - pd (planes' ! q)\<bar> < 1 / 10 ^ 3)"
    by blast
  from r have eq: "count = 2" "planes' = [down, up, blank]"
    by (simp_all add: compute_square)
  from nd [rule_format, of 0 1] eq h compute_square show ?thesis by simp
qed

text \<open>
  Claim C7. For every point set \<^verbatim>\<open>computeBasePlanes\<close> accepts at most \<^verbatim>\<open>maxPlanes\<close> planes,
  \<^verbatim>\<open>maxPlanes\<close> being the capacity of the array \<^verbatim>\<open>planes\<close>: the call returns without a store
  outside the array, the count is between 0 and \<^verbatim>\<open>maxPlanes\<close>, every slot from the count on
  (so every index \<open>\<ge> maxPlanes\<close>) is as the caller left it, and a plane that qualifies when
  the count has reached \<^verbatim>\<open>maxPlanes\<close> is dropped: the state stays as it is and no error is
  raised.
\<close>

theorem computeBasePlanes_capacity:
  assumes "0 \<le> maxPlanes" and "maxPlanes \<le> int (length planes)"
  shows "\<exists>count planes'. computeBasePlanes vertices planes maxPlanes = Inr (count, planes') \<and>
    0 \<le> count \<and> count \<le> maxPlanes \<and> length planes' = length planes \<and>
    (\<forall>i. nat count \<le> i \<longrightarrow> planes' ! i = planes ! i) \<and>
    (\<forall>c buf. accept maxPlanes c (maxPlanes, buf) = Inr (maxPlanes, buf))"
proof -
  from computeBasePlanes_inv [OF assms(2)] obtain count planes' where
    r: "computeBasePlanes vertices planes maxPlanes = Inr (count, planes')"
    and inv: "ext_inv maxPlanes planes (count, planes')"
    by (metis surj_pair)
  have "accept maxPlanes c (maxPlanes, buf) = Inr (maxPlanes, buf)" for c buf
    by (simp add: accept_def Let_def)
  with r inv assms(1) show ?thesis by (simp add: ext_inv_def)
qed


theorem computeBasePlanes_capacity_witness:
  "(0::int) \<le> 1 \<and> 1 \<le> int (length [blank]) \<and>
   computeBasePlanes square [blank] 1 = Inr (1, [down]) \<and>
   candidate square 0 (Suc (Suc 0)) (Suc (Suc (Suc 0))) = Some up \<and>
   accept 1 up (1, [down]) = Inr (1, [down])"
proof -
  have h1: "(0::int) \<le> 1" by simp
  have h2: "1 \<le> int (length [blank])" by simp
  from computeBasePlanes_capacity [OF h1 h2, of square] obtain count planes' where
    r: "computeBasePlanes square [blank] 1 = Inr (count, planes')"
    and a: "\<forall>c buf. accept 1 c (1, buf) = Inr (1, buf)"
    by blast
  from a have "accept 1 up (1, [down]) = Inr (1, [down])" by blast
  with r compute_square_full candidate_square(3) show ?thesis by simp
qed


text \<open>
  Claim C1. For the canonical dodecahedron point set (the 20 vertices of the golden-ratio
  construction, scaled by \<open>0.5\<close>) and the capacity \<^verbatim>\<open>MAX_PLANES\<close>, \<^verbatim>\<open>computeBasePlanes\<close> returns
  exactly 12 planes; the normal of each has length 1 within \<open>1e-6\<close>, and each satisfies
  \<open>dot n p \<le> d + 1e-6\<close> for each of the 20 points.
\<close>

theorem dodecahedron_twelve_planes:
  assumes "MAX_PLANES \<le> int (length planes)"
  shows "length scaledVertices = NUM_VERTICES \<and>
    (\<exists>planes'. computeBasePlanes scaledVertices planes MAX_PLANES = Inr (12, planes') \<and>
      (\<forall>q<12. \<bar>length_v (pn (planes' ! q)) - 1\<bar> \<le> 1 / 10 ^ 6 \<and>
         (\<forall>p\<in>set scaledVertices. dot (pn (planes' ! q)) p \<le> pd (planes' ! q) + 1 / 10 ^ 6)))"
proof -
  have cap: "int (card (set faces)) \<le> MAX_PLANES"
    by (simp add: card_faces MAX_PLANES_def)
  have "\<exists>st'. computeBasePlanes scaledVertices planes MAX_PLANES = Inr st' \<and>
      face_inv faces planes st' \<and>
      (\<forall>i j k f. i < j \<and> j < k \<and> k < length scaledVertices \<and>
         candidate scaledVertices i j k = Some f \<longrightarrow> f \<in> accepted st')"
  proof (rule extract_faces [where F = faces], goal_cases)
    case (1 f g)
    then show ?case by (rule faces_dup)
  next
    case 2
    show ?case by (rule cap)
  next
    case 3
    show ?case by (rule assms)
  next
    case (4 i j k)
    then show ?case by (rule classify)
  qed
  then obtain count planes' where r: "computeBasePlanes scaledVertices planes MAX_PLANES = Inr (count, planes')"
    and inv: "face_inv faces planes (count, planes')"
    and all: "\<forall>i j k f. i < j \<and> j < k \<and> k < length scaledVertices \<and>
        candidate scaledVertices i j k = Some f \<longrightarrow> f \<in> accepted (count, planes')"
    by (metis surj_pair)
  from inv have I: "0 \<le> count" "nat count \<le> length planes'"
    "distinct (take (nat count) planes')" "accepted (count, planes') \<subseteq> set faces"
    by (simp_all add: face_inv_def)
  have "set faces \<subseteq> accepted (count, planes')"
  proof
    fix f assume "f \<in> set faces"
    from cover [OF this] all show "f \<in> accepted (count, planes')" by blast
  qed
  with I(4) have eq: "set (take (nat count) planes') = set faces"
    by (simp add: accepted_def)
  have "card (set (take (nat count) planes')) = nat count"
    using I(2,3) by (simp add: distinct_card)
  with eq card_faces I(1) have count: "count = 12" by simp
  have geo: "\<bar>length_v (pn (planes' ! q)) - 1\<bar> \<le> 1 / 10 ^ 6 \<and>
      (\<forall>p\<in>set scaledVertices. dot (pn (planes' ! q)) p \<le> pd (planes' ! q) + 1 / 10 ^ 6)"
    if "q < 12" for q
  proof -
    from that count I(2) have "take (nat count) planes' ! q \<in> set (take (nat count) planes')"
      by (intro nth_mem) simp
    with that count eq have f: "planes' ! q \<in> set faces" by simp
    from faces_geometry [OF f] show ?thesis by force
  qed
  have "length scaledVertices = NUM_VERTICES"
    by (simp add: scaledVertices_PZ length_PZ NUM_VERTICES_def)
  with r count geo show ?thesis by blast
qed

theorem dodecahedron_twelve_planes_witness:
  "MAX_PLANES \<le> int (length (replicate 30 blank)) \<and>
   (\<exists>planes'. computeBasePlanes scaledVertices (replicate 30 blank) MAX_PLANES = Inr (12, planes') \<and>
      \<bar>length_v (pn (planes' ! 0)) - 1\<bar> \<le> 1 / 10 ^ 6 \<and>
      dot (pn (planes' ! 0)) (scaledVertices ! 7) \<le> pd (planes' ! 0) + 1 / 10 ^ 6)"
proof -
  have h: "MAX_PLANES \<le> int (length (replicate 30 blank))" by (simp add: MAX_PLANES_def)
  have m: "scaledVertices ! 7 \<in> set scaledVertices"
    by (intro nth_mem) (simp add: scaledVertices_PZ length_PZ)
  from dodecahedron_twelve_planes [OF h] obtain planes' where
    r: "computeBasePlanes scaledVertices (replicate 30 blank) MAX_PLANES = Inr (12, planes')"
    and g: "\<forall>q<12. \<bar>length_v (pn (planes' ! q)) - 1\<bar> \<le> 1 / 10 ^ 6 \<and>
         (\<forall>p\<in>set scaledVertices. dot (pn (planes' ! q)) p \<le> pd (planes' ! q) + 1 / 10 ^ 6)"
    by blast
  from g have "\<bar>length_v (pn (planes' ! 0)) - 1\<bar> \<le> 1 / 10 ^ 6 \<and>
         (\<forall>p\<in>set scaledVertices. dot (pn (planes' ! 0)) p \<le> pd (planes' ! 0) + 1 / 10 ^ 6)"
    by simp
  with m have "\<bar>length_v (pn (planes' ! 0)) - 1\<bar> \<le> 1 / 10 ^ 6 \<and>
      dot (pn (planes' ! 0)) (scaledVertices ! 7) \<le> pd (planes' ! 0) + 1 / 10 ^ 6"
    by blast
  with h r show ?thesis by blast
qed

end
